theory Spec2Isabelle
  imports Main
begin

section \<open>Strings and numbers as the TypeScript code uses them\<close>

text \<open>
  Strings are lists of 8-bit characters, read as the code points U+0000 to U+00FF.
  Sequence orders, retry counts and time amounts are JavaScript numbers, that is, doubles.
  The model covers the numbers that hold integers. An \<open>int\<close> stands for the finite double
  of that value; an \<open>int\<close> that is the value of no double stands for no value of the
  program. \<open>NaN\<close> and the two infinities, which \<open>parseInt\<close> returns for a string without
  digits and for one with too many, are the further values of the type \<open>number\<close>. Negative
  zero is not told apart from zero: it prints as \<open>0\<close>, equals \<open>0\<close> and is falsy.

  Arithmetic and printing follow the doubles. Up to \<open>2 ^ 53\<close> every integer is a double,
  sums and differences are exact and a number prints as its decimal digits. Above,
  \<open>round_to_double\<close> gives the nearest double (53 significant bits, ties to the even
  significand), and \<open>number_toString\<close> prints the fewest digits that read back as the
  number, the nearest such digits when there is a choice, and from \<open>10 ^ 21\<close> on in
  exponent form. Large values are kept in \<open>int\<close>, and \<open>nat\<close> is used for small counts
  only.
\<close>

datatype number = NaN | Num int | PosInfinity | NegInfinity

definition is_space :: "char \<Rightarrow> bool" where
  \<comment> \<open>the white space and line terminator characters that \<open>trim\<close> and \<open>parseInt\<close> skip\<close>
  "is_space c = (c \<in> set [CHR 0x09, CHR 0x0A, CHR 0x0B, CHR 0x0C, CHR 0x0D, CHR '' '', CHR 0xA0])"

definition is_line_terminator :: "char \<Rightarrow> bool" where
  \<comment> \<open>the characters that \<open>.\<close> of a regular expression does not match\<close>
  "is_line_terminator c = (c = CHR 0x0A \<or> c = CHR 0x0D)"

definition is_digit :: "char \<Rightarrow> bool" where
  "is_digit c = (c \<in> set ''0123456789'')"

definition digit_char :: "nat \<Rightarrow> char" where
  "digit_char d = ''0123456789'' ! d"

definition digit_val :: "char \<Rightarrow> nat" where
  \<comment> \<open>the value of a digit: its place in \<open>0123456789\<close>\<close>
  "digit_val c = length (takeWhile (\<lambda>d. d \<noteq> c) ''0123456789'')"

function digits :: "int \<Rightarrow> string" where
  \<comment> \<open>the decimal digits of an integer that is not negative\<close>
  "digits n =
     (if n < 10 then [digit_char (nat n)] else digits (n div 10) @ [digit_char (nat (n mod 10))])"
  by pat_completeness auto
termination
  by (relation "measure nat") auto

declare digits.simps [simp del]

function binary_exponent :: "int \<Rightarrow> nat" where
  \<comment> \<open>how often a positive integer is halved until it has at most 53 bits\<close>
  "binary_exponent a = (if a < 2 ^ 53 then 0 else Suc (binary_exponent (a div 2)))"
  by pat_completeness auto
termination
  by (relation "measure nat") auto

declare binary_exponent.simps [simp del]

definition round_to_double :: "int \<Rightarrow> int" where
  \<comment> \<open>the finite double nearest to an integer: the result of an exact sum or difference\<close>
  "round_to_double x =
     (if \<bar>x\<bar> \<le> 2 ^ 53 then x
      else (let e = binary_exponent \<bar>x\<bar>;
                q = \<bar>x\<bar> div 2 ^ e;
                r = \<bar>x\<bar> mod 2 ^ e;
                q' = (if 2 ^ e < 2 * r \<or> (2 * r = 2 ^ e \<and> odd q) then q + 1 else q)
            in sgn x * (q' * 2 ^ e)))"

definition number_of :: "int \<Rightarrow> number" where
  \<comment> \<open>the number value of an integer: what rounds to \<open>2 ^ 1024\<close> is infinite\<close>
  "number_of x =
     (if \<bar>x\<bar> \<le> 2 ^ 53 then Num x
      else if 2 ^ 1024 - 2 ^ 970 \<le> \<bar>x\<bar> then (if x < 0 then NegInfinity else PosInfinity)
      else Num (round_to_double x))"

definition round_trip :: "int \<Rightarrow> int \<Rightarrow> int option" where
  \<comment> \<open>of the two multiples of \<open>p\<close> around \<open>a\<close>, the one that rounds to \<open>a\<close>; of two that do, the
      nearer one, and the one with the even factor when they are equally near\<close>
  "round_trip a p =
     (let lo = a div p * p;
          hi = lo + p;
          ok_lo = (round_to_double lo = a);
          ok_hi = (round_to_double hi = a)
      in if ok_lo \<and> ok_hi then
           Some (if a - lo < hi - a then lo
                 else if hi - a < a - lo then hi
                 else if even (a div p) then lo else hi)
         else if ok_lo then Some lo
         else if ok_hi then Some hi
         else None)"

fun shortest_from :: "int \<Rightarrow> nat \<Rightarrow> int" where
  \<comment> \<open>the integer with the fewest significant digits that rounds to \<open>a\<close>, tried from one
      digit on: \<open>e\<close> counts the final zeros\<close>
  "shortest_from a 0 = a"
| "shortest_from a (Suc e) =
     (case round_trip a (10 ^ Suc e) of Some v \<Rightarrow> v | None \<Rightarrow> shortest_from a e)"

definition exponent_form :: "int \<Rightarrow> string" where
  \<comment> \<open>\<open>d.ddde+n\<close>: the first digit, the further digits up to the last that is not 0, and the
      count of the digits after the first\<close>
  "exponent_form v =
     (case digits v of
        [] \<Rightarrow> []
      | d # ds \<Rightarrow>
          (let fraction = rev (dropWhile (\<lambda>c. c = CHR ''0'') (rev ds))
           in d # (if fraction = [] then [] else CHR ''.'' # fraction)
                @ ''e+'' @ digits (int (length ds))))"

definition magnitude_toString :: "int \<Rightarrow> string" where
  \<comment> \<open>\<open>String(a)\<close> for a double \<open>a\<close> that is a positive integer or 0\<close>
  "magnitude_toString a =
     (if a \<le> 2 ^ 53 then digits a
      else (let v = shortest_from a (length (digits a) - 1)
            in if v < 10 ^ 21 then digits v else exponent_form v))"

definition number_toString :: "int \<Rightarrow> string" where
  \<comment> \<open>\<open>String(n)\<close>, and \<open>${n}\<close> in a template literal, for a finite double \<open>n\<close> that is an
      integer\<close>
  "number_toString i =
     (if i < 0 then CHR ''-'' # magnitude_toString (- i) else magnitude_toString i)"

definition ToString :: "number \<Rightarrow> string" where
  \<comment> \<open>\<open>String(x)\<close> and \<open>${x}\<close> for any number of the model\<close>
  "ToString x =
     (case x of NaN \<Rightarrow> ''NaN'' | Num i \<Rightarrow> number_toString i
      | PosInfinity \<Rightarrow> ''Infinity'' | NegInfinity \<Rightarrow> ''-Infinity'')"

definition number_char :: "char \<Rightarrow> bool" where
  \<comment> \<open>the characters of a printed number, but for a \<open>-\<close> at its front: digits, and in
      exponent form a point, an \<open>e\<close> and a \<open>+\<close>\<close>
  "number_char c = (is_digit c \<or> c = CHR ''.'' \<or> c = CHR ''e'' \<or> c = CHR ''+'')"

definition digits_value :: "string \<Rightarrow> int" where
  "digits_value ds = foldl (\<lambda>a c. 10 * a + int (digit_val c)) 0 ds"

definition parseInt :: "string \<Rightarrow> number" where
  \<comment> \<open>\<open>parseInt(s, 10)\<close>: leading white space, an optional sign, the longest run of digits,
      all of them read, and the number value of the integer they spell\<close>
  "parseInt s =
     (let t = dropWhile is_space s;
          neg = (t \<noteq> [] \<and> hd t = CHR ''-'');
          u = (if t \<noteq> [] \<and> (hd t = CHR ''-'' \<or> hd t = CHR ''+'') then tl t else t);
          ds = takeWhile is_digit u
      in if ds = [] then NaN
         else number_of (if neg then - digits_value ds else digits_value ds))"

definition trim :: "string \<Rightarrow> string" where
  "trim s = rev (dropWhile is_space (rev (dropWhile is_space s)))"

fun split_on :: "char \<Rightarrow> string \<Rightarrow> string list" where
  \<comment> \<open>\<open>s.split(sep)\<close> for a separator of one character\<close>
  "split_on sep [] = [[]]"
| "split_on sep (c # cs) =
     (if c = sep then [] # split_on sep cs
      else (case split_on sep cs of [] \<Rightarrow> [[c]] | p # ps \<Rightarrow> (c # p) # ps))"

fun join_with :: "string \<Rightarrow> string list \<Rightarrow> string" where
  \<comment> \<open>\<open>xs.join(sep)\<close>\<close>
  "join_with sep [] = []"
| "join_with sep [x] = x"
| "join_with sep (x # y # ys) = x @ sep @ join_with sep (y # ys)"

definition startsWith :: "string \<Rightarrow> string \<Rightarrow> bool" where
  "startsWith s p = (take (length p) s = p)"

definition endsWith :: "string \<Rightarrow> string \<Rightarrow> bool" where
  "endsWith s p = (length p \<le> length s \<and> drop (length s - length p) s = p)"

definition indexOf :: "'a list \<Rightarrow> 'a \<Rightarrow> int" where
  \<comment> \<open>\<open>xs.indexOf(x)\<close>: the first index of \<open>x\<close>, or \<open>-1\<close>\<close>
  "indexOf xs x = (if x \<in> set xs then int (length (takeWhile (\<lambda>y. y \<noteq> x) xs)) else - 1)"

definition uniq :: "'a list \<Rightarrow> 'a list" where
  \<comment> \<open>\<open>[...new Set(xs)]\<close>: the first occurrence of each element, in order\<close>
  "uniq xs = rev (remdups (rev xs))"

definition truthy_str :: "string option \<Rightarrow> bool" where
  \<comment> \<open>an optional string in a condition: \<open>undefined\<close> and \<open>''\<close> are falsy\<close>
  "truthy_str v = (case v of None \<Rightarrow> False | Some s \<Rightarrow> s \<noteq> [])"

definition truthy_int :: "int option \<Rightarrow> bool" where
  \<comment> \<open>an optional integer in a condition: \<open>undefined\<close> and \<open>0\<close> are falsy\<close>
  "truthy_int v = (case v of None \<Rightarrow> False | Some n \<Rightarrow> n \<noteq> 0)"

definition truthy_num :: "number option \<Rightarrow> bool" where
  \<comment> \<open>an optional number in a condition: \<open>undefined\<close>, \<open>NaN\<close> and \<open>0\<close> are falsy\<close>
  "truthy_num v =
     (case v of None \<Rightarrow> False | Some NaN \<Rightarrow> False | Some (Num n) \<Rightarrow> n \<noteq> 0
      | Some PosInfinity \<Rightarrow> True | Some NegInfinity \<Rightarrow> True)"

section \<open>The data model (types.ts)\<close>

text \<open>
  \<open>StepType\<close>, \<open>TimeGrain\<close> and \<open>TimeMode\<close> are string enums: at run time a value of
  such a type is its string, and the import casts the strings of a document to them
  unchecked. The model therefore keeps strings. The fields of a node that only the
  canvas reads (position, draggable, hasError) are left out, as are the style fields of
  an edge. Field \<open>value\<close> of the source is written \<open>value'\<close>.
\<close>

abbreviation SQL :: string where "SQL \<equiv> ''sql''"
abbreviation LLM :: string where "LLM \<equiv> ''llm''"
abbreviation CONCAT :: string where "CONCAT \<equiv> ''concat''"

definition TimeGrain_values :: "string list" where
  \<comment> \<open>\<open>Object.values(TimeGrain)\<close>\<close>
  "TimeGrain_values = [''month'', ''day'']"

record FlowNodeData =
  label :: string
  sequence_order :: int
  type :: "string option"
  value' :: string
  append_iteration_column :: "string option"
  append_time_column :: "string option"
  time_amount :: "number option"
  time_grain :: "string option"
  time_mode :: "string option"
  reference_date :: "string option"
  llm_model :: "string option"
  max_retry :: "int option"
  isStartNode :: bool

record Node =
  node_id :: string
  data :: FlowNodeData

record Edge =
  edge_id :: string
  source :: string
  target :: string

section \<open>The validator (App.tsx)\<close>

definition duplicateOrders :: "Node list \<Rightarrow> int list" where
  "duplicateOrders nodes =
     (let orders = map (\<lambda>n. sequence_order (data n)) nodes
      in map fst (filter (\<lambda>(item, index). indexOf orders item \<noteq> int index)
                         (zip orders [0..<length orders])))"

definition hasDuplicates :: "Node list \<Rightarrow> bool" where
  "hasDuplicates nodes = (length (duplicateOrders nodes) > 0)"

definition startEdgesCount :: "Edge list \<Rightarrow> nat" where
  "startEdgesCount edges = length (filter (\<lambda>e. source e = ''start'') edges)"

definition lastNode :: "Node list \<Rightarrow> Node" where
  \<comment> \<open>\<open>stepNodes.reduce((prev, current) => ..., stepNodes[0])\<close>, called on a non-empty list\<close>
  "lastNode stepNodes =
     foldl (\<lambda>prev current.
              if sequence_order (data prev) > sequence_order (data current) then prev else current)
           (hd stepNodes) stepNodes"

fun find_close :: "string \<Rightarrow> string \<Rightarrow> (string \<times> string) option" where
  \<comment> \<open>after \<open>{{\<close>: the lazy \<open>(.*?)\<close> up to the first \<open>}}\<close>; the tag and the text after the match\<close>
  "find_close acc [] = None"
| "find_close acc (c # cs) =
     (if c = CHR ''}'' \<and> cs \<noteq> [] \<and> hd cs = CHR ''}'' then Some (rev acc, tl cs)
      else if is_line_terminator c then None
      else find_close (c # acc) cs)"

lemma find_close_shorter: "find_close acc s = Some (t, r) \<Longrightarrow> length r < length s"
proof (induction s arbitrary: acc)
  case Nil
  then show ?case by simp
next
  case (Cons c cs)
  show ?case
  proof (cases "c = CHR ''}'' \<and> cs \<noteq> [] \<and> hd cs = CHR ''}''")
    case True
    with Cons.prems have "r = tl cs" by simp
    then show ?thesis by simp
  next
    case False
    with Cons.prems have "find_close (c # acc) cs = Some (t, r)"
      by (auto split: if_splits)
    from Cons.IH [OF this] show ?thesis by simp
  qed
qed

function match_tags :: "string \<Rightarrow> string list" where
  \<comment> \<open>\<open>[...s.matchAll(/\{\{(.*?)\}\}/g)].map(m => m[1])\<close>\<close>
  "match_tags [] = []"
| "match_tags (c # cs) =
     (case (if c = CHR ''{'' \<and> cs \<noteq> [] \<and> hd cs = CHR ''{'' then find_close [] (tl cs) else None) of
        Some (tag, rest) \<Rightarrow> tag # match_tags rest
      | None \<Rightarrow> match_tags cs)"
  by pat_completeness auto
termination
proof (relation "measure length")
  show "wf (measure length)" by simp
next
  fix c :: char and cs :: string
  show "(cs, c # cs) \<in> measure length" by simp
next
  fix c :: char and cs :: string and x2 :: "string \<times> string" and tag rest :: string
  assume a: "(if c = CHR ''{'' \<and> cs \<noteq> [] \<and> hd cs = CHR ''{'' then find_close [] (tl cs) else None) = Some x2"
    and b: "(tag, rest) = x2"
  from a b have "find_close [] (tl cs) = Some (tag, rest)"
    by (auto split: if_splits)
  then have "length rest < length (tl cs)" by (rule find_close_shorter)
  then show "(rest, c # cs) \<in> measure length" by simp
qed

definition tag_warnings :: "bool \<Rightarrow> Node \<Rightarrow> Node list \<Rightarrow> bool \<Rightarrow> string \<Rightarrow> string list" where
  \<comment> \<open>the body of \<open>uniqueTags.forEach\<close>: the warnings pushed for one tag\<close>
  "tag_warnings iterateFlow node predecessors isConnectedToStart tag =
     (if tag = ''iteration_value'' then
        (if \<not> iterateFlow then
           [''Step '' @ number_toString (sequence_order (data node))
              @ '': {{iteration_value}} requires Iterated Flow'']
         else if \<not> isConnectedToStart then
           [''Step '' @ number_toString (sequence_order (data node))
              @ '': {{iteration_value}} used but not connected to Start'']
         else [])
      else if startsWith tag ''step_'' then
        (let stepNum = parseInt (drop 5 tag)
         in if stepNum \<noteq> NaN then
              (let hasPred = (\<exists>p \<in> set predecessors. Num (sequence_order (data p)) = stepNum)
               in if \<not> hasPred then
                    [''Step '' @ number_toString (sequence_order (data node)) @ '': {{'' @ tag
                       @ ''}} used but Step '' @ ToString stepNum @ '' is not connected'']
                  else [])
            else [])
      else [])"

definition node_warnings :: "Node list \<Rightarrow> Edge list \<Rightarrow> bool \<Rightarrow> Node \<Rightarrow> string list" where
  \<comment> \<open>the body of \<open>nodes.forEach\<close>: the warnings pushed for one node\<close>
  "node_warnings nodes edges iterateFlow node =
     (if isStartNode (data node) then []
      else
        (if type (data node) = Some SQL \<and> (value' (data node) = [] \<or> trim (value' (data node)) = [])
         then [''Step '' @ number_toString (sequence_order (data node)) @ '': SQL Query is empty'']
         else [])
        @ (if type (data node) = Some SQL \<and> truthy_str (append_time_column (data node))
              \<and> (\<not> truthy_num (time_amount (data node)) \<or> \<not> truthy_str (time_grain (data node))
                   \<or> \<not> truthy_str (time_mode (data node)))
           then [''Step '' @ number_toString (sequence_order (data node))
                   @ '': Incomplete Time Configuration'']
           else [])
        @ (let incomingEdges = filter (\<lambda>e. target e = node_id node) edges;
               sourceIds = map source incomingEdges;
               predecessors = filter (\<lambda>n. node_id n \<in> set sourceIds) nodes;
               isConnectedToStart = (''start'' \<in> set sourceIds);
               uniqueTags = uniq (match_tags (value' (data node)))
           in concat (map (tag_warnings iterateFlow node predecessors isConnectedToStart) uniqueTags)))"

definition flowWarnings :: "Node list \<Rightarrow> Edge list \<Rightarrow> bool \<Rightarrow> string \<Rightarrow> string list" where
  "flowWarnings nodes edges iterateFlow getIterateList =
     (if hasDuplicates nodes then [''Duplicate Sequence # Detected''] else [])
     @ (if \<not> iterateFlow \<and> startEdgesCount edges > 1
        then [''Invalid Start Connection (Single path only)''] else [])
     @ (let stepNodes = filter (\<lambda>n. \<not> isStartNode (data n)) nodes
        in if length stepNodes > 0
           then (if type (data (lastNode stepNodes)) \<noteq> Some CONCAT
                 then [''Flow must end with CONCAT''] else [])
           else [])
     @ (if iterateFlow \<and> trim getIterateList = [] then [''Iteration Query Empty''] else [])
     @ concat (map (node_warnings nodes edges iterateFlow) nodes)"

section \<open>The connect operation (App.tsx)\<close>

text \<open>
  \<open>iterateFlow\<close> is component state that the callbacks close over; it is an argument
  here. \<open>addEdge\<close> is a function of the reactflow library and not code of this
  repository: \<open>onConnect\<close> takes it as an argument. The \<open>alert\<close> of a rejected
  connection is an effect on the user interface only.
\<close>

record Connection =
  conn_source :: "string option"
  conn_target :: "string option"

record EdgeParams =
  \<comment> \<open>the object handed to \<open>addEdge\<close>: the connection, and the colour and dash of its line\<close>
  ep_source :: string
  ep_target :: string
  ep_color :: string
  ep_strokeDasharray :: string

definition validateConnections :: "bool \<Rightarrow> string \<Rightarrow> string \<Rightarrow> Edge list \<Rightarrow> bool" where
  "validateConnections iterateFlow src tgt currentEdges =
     (if src = ''start'' then
        (let existingStartEdges = filter (\<lambda>e. source e = ''start'') currentEdges
         in if \<not> iterateFlow \<and> length existingStartEdges > 0 then False else True)
      else True)"

definition onConnect ::
  "(EdgeParams \<Rightarrow> Edge list \<Rightarrow> Edge list) \<Rightarrow> bool \<Rightarrow> Connection \<Rightarrow> Edge list \<Rightarrow> Edge list" where
  \<comment> \<open>the edge list after the call, from the edge list \<open>eds\<close> before it\<close>
  "onConnect addEdge iterateFlow params eds =
     (case (conn_source params, conn_target params) of
        (Some src, Some tgt) \<Rightarrow>
          if src = [] \<or> tgt = [] then eds
          else if \<not> validateConnections iterateFlow src tgt eds then eds
          else
            (let isIteration = (src = ''start'' \<and> iterateFlow);
                 color = (if isIteration then ''#059669'' else ''#2563eb'')
             in addEdge \<lparr>ep_source = src, ep_target = tgt, ep_color = color,
                          ep_strokeDasharray = (if isIteration then ''5,5'' else ''0'')\<rparr> eds)
      | _ \<Rightarrow> eds)"

section \<open>The compiler (utils/flowUtils.ts, generateFlowJson)\<close>

text \<open>
  The fields of a step record of the document carry the prefix \<open>step_\<close>, the value of
  \<open>globalConfig\<close> the prefix \<open>cfg_\<close>. In the source \<open>depends_on\<close> is declared a
  string, and the import reads it as a string, a number, an array of numbers and
  strings, or anything else that is truthy. A document whose \<open>steps\<close> is not an array
  is read like one whose \<open>steps\<close> is empty, a missing \<open>flow_name\<close> like an empty one and
  a missing \<open>iterate_flow\<close> like \<open>false\<close>; \<open>delivery_config\<close> is neither written nor
  read by the two functions. \<open>generateFlowJson\<close> returns the document itself here, not
  the object \<open>{ json }\<close> around it.
\<close>

datatype dep_elem = ElemNumber int | ElemString string

datatype depends_on_value = DepString string | DepNumber int | DepArray "dep_elem list" | DepOther

record FlowStep =
  step_sequence_order :: int
  step_sequence_name :: string
  step_type :: string
  step_value :: string
  step_depends_on :: "depends_on_value option"
  step_max_retry :: "int option"
  step_append_iteration_column :: "string option"
  step_append_time_column :: "string option"
  step_time_range :: "string option"
  step_time_grain :: "string option"
  step_time_mode :: "string option"
  step_reference_date :: "string option"
  step_llm_model :: "string option"

record FlowJson =
  flow_name :: string
  iterate_flow :: bool
  iterable_steps :: "int list option"
  get_iterate_list :: "string option"
  steps :: "FlowStep list"

record GlobalConfig =
  cfg_iterateFlow :: bool
  cfg_getIterateList :: string
  cfg_flowName :: string

definition dependsOnOrders :: "Node list \<Rightarrow> Edge list \<Rightarrow> Node \<Rightarrow> string" where
  "dependsOnOrders nodes edges node =
     (let incomingDependencyEdges =
            filter (\<lambda>e. target e = node_id node \<and> source e \<noteq> ''start'') edges;
          sourceNodeIds = map source incomingDependencyEdges
      in join_with '',''
           (map number_toString
              (sort (map (\<lambda>n. sequence_order (data n))
                         (filter (\<lambda>n. node_id n \<in> set sourceNodeIds \<and> \<not> isStartNode (data n))
                                 nodes)))))"

definition time_range_of :: "FlowNodeData \<Rightarrow> string option" where
  \<comment> \<open>\<open>`last_${time_amount}_${time_grain}s`\<close>, when amount and grain are truthy\<close>
  "time_range_of d =
     (case (time_amount d, time_grain d) of
        (Some a, Some g) \<Rightarrow>
          if truthy_num (Some a) \<and> g \<noteq> [] then Some (''last_'' @ ToString a @ ''_'' @ g @ ''s'')
          else None
      | _ \<Rightarrow> None)"

definition compile_step :: "Node list \<Rightarrow> Edge list \<Rightarrow> Node \<Rightarrow> FlowStep" where
  \<comment> \<open>the body of \<open>sortedSteps.map\<close>\<close>
  "compile_step nodes edges node =
     (let d = data node;
          deps = dependsOnOrders nodes edges node;
          sql = (type d = Some SQL);
          timed = (sql \<and> truthy_str (append_time_column d))
      in \<lparr>step_sequence_order = sequence_order d,
          step_sequence_name = label d,
          step_type = (case type d of None \<Rightarrow> SQL | Some t \<Rightarrow> if t = [] then SQL else t),
          step_value = value' d,
          step_depends_on = (if deps \<noteq> [] then Some (DepString deps) else None),
          step_max_retry = (if truthy_int (max_retry d) then max_retry d else None),
          step_append_iteration_column =
            (if sql \<and> truthy_str (append_iteration_column d)
             then append_iteration_column d else None),
          step_append_time_column = (if timed then append_time_column d else None),
          step_time_range = (if timed then time_range_of d else None),
          step_time_grain = (if timed \<and> truthy_str (time_grain d) then time_grain d else None),
          step_time_mode = (if timed \<and> truthy_str (time_mode d) then time_mode d else None),
          step_reference_date =
            (if sql \<and> truthy_str (reference_date d) then reference_date d else None),
          step_llm_model =
            (if type d = Some LLM \<and> truthy_str (llm_model d) then llm_model d else None)\<rparr>)"

definition generateFlowJson :: "Node list \<Rightarrow> Edge list \<Rightarrow> GlobalConfig \<Rightarrow> FlowJson" where
  "generateFlowJson nodes edges globalConfig =
     (let stepNodes = filter (\<lambda>n. \<not> isStartNode (data n)) nodes;
          sortedSteps = sort_key (\<lambda>n. sequence_order (data n)) stepNodes;
          iterableStepIds = set (map target (filter (\<lambda>e. source e = ''start'') edges))
      in \<lparr>flow_name = cfg_flowName globalConfig,
          iterate_flow = cfg_iterateFlow globalConfig,
          iterable_steps =
            (if cfg_iterateFlow globalConfig
             then Some (map (\<lambda>n. sequence_order (data n))
                            (filter (\<lambda>n. node_id n \<in> iterableStepIds) sortedSteps))
             else None),
          get_iterate_list =
            (if cfg_iterateFlow globalConfig then Some (cfg_getIterateList globalConfig) else None),
          steps = map (compile_step nodes edges) sortedSteps\<rparr>)"

section \<open>The reconstructor (utils/flowUtils.ts, restoreFlowFromJson)\<close>

text \<open>
  The identifier of a rebuilt node ends in the text of \<open>Date.now() + Math.random()\<close>.
  That text is an argument of the model: \<open>stamps i\<close> is the one drawn for the step at
  index \<open>i\<close> of the document. \<open>sequenceToIdMap\<close> is an object, whose keys are the
  printed orders; two doubles that differ print differently, and the model keys the map
  by the order itself. The result record carries the prefix \<open>r_\<close>.
\<close>

record RestoredFlow =
  r_nodes :: "Node list"
  r_edges :: "Edge list"
  r_flowName :: string
  r_iterateFlow :: bool
  r_getIterateList :: string

definition start_node :: Node where
  "start_node =
     \<lparr>node_id = ''start'',
      data = \<lparr>label = ''Start / Configuration'', sequence_order = 0, type = None, value' = [],
               append_iteration_column = None, append_time_column = None, time_amount = None,
               time_grain = None, time_mode = None, reference_date = None, llm_model = None,
               max_retry = None, isStartNode = True\<rparr>\<rparr>"

definition gen_id :: "int \<Rightarrow> string \<Rightarrow> string" where
  \<comment> \<open>\<open>`node-${step.sequence_order}-${Date.now() + Math.random()}`\<close>\<close>
  "gen_id order stamp = ''node-'' @ number_toString order @ ''-'' @ stamp"

definition sequenceToIdMap :: "(nat \<Rightarrow> string) \<Rightarrow> FlowStep list \<Rightarrow> (int \<rightharpoonup> string)" where
  \<comment> \<open>the map after the first loop: a later step overwrites the entry of an earlier one\<close>
  "sequenceToIdMap stamps ss =
     foldl (\<lambda>m (step, i). m(step_sequence_order step \<mapsto> gen_id (step_sequence_order step) (stamps i)))
           Map.empty (zip ss [0..<length ss])"

definition parse_time_range :: "FlowStep \<Rightarrow> number option \<times> string option" where
  \<comment> \<open>\<open>time_amount\<close> and \<open>time_grain\<close> of the rebuilt node\<close>
  "parse_time_range step =
     (case step_time_range step of
        Some tr \<Rightarrow>
          if tr \<noteq> [] then
            (let parts = split_on CHR ''_'' tr
             in if length parts \<ge> 3 then
                  (let amountStr = parts ! 1;
                       grainStr = (if endsWith (parts ! 2) ''s'' then butlast (parts ! 2) else parts ! 2)
                   in (Some (parseInt amountStr),
                       if grainStr \<in> set TimeGrain_values then Some grainStr else None))
                else (None, None))
          else (None, if truthy_str (step_time_grain step) then step_time_grain step else None)
      | None \<Rightarrow> (None, if truthy_str (step_time_grain step) then step_time_grain step else None))"

definition restore_node :: "(nat \<Rightarrow> string) \<Rightarrow> FlowStep \<Rightarrow> nat \<Rightarrow> Node" where
  \<comment> \<open>the node pushed for the step at index \<open>i\<close>\<close>
  "restore_node stamps step i =
     \<lparr>node_id = gen_id (step_sequence_order step) (stamps i),
      data = \<lparr>label = (if step_sequence_name step \<noteq> [] then step_sequence_name step
                       else ''Step '' @ number_toString (step_sequence_order step)),
               sequence_order = step_sequence_order step,
               type = Some (step_type step),
               value' = step_value step,
               append_iteration_column = step_append_iteration_column step,
               append_time_column = step_append_time_column step,
               time_amount = fst (parse_time_range step),
               time_grain = snd (parse_time_range step),
               time_mode = step_time_mode step,
               reference_date = step_reference_date step,
               llm_model = step_llm_model step,
               max_retry = step_max_retry step,
               isStartNode = False\<rparr>\<rparr>"

definition truthy_dep :: "depends_on_value option \<Rightarrow> bool" where
  "truthy_dep v =
     (case v of None \<Rightarrow> False | Some (DepString s) \<Rightarrow> s \<noteq> [] | Some (DepNumber n) \<Rightarrow> n \<noteq> 0
      | Some (DepArray xs) \<Rightarrow> True | Some DepOther \<Rightarrow> True)"

definition dep_sources :: "depends_on_value \<Rightarrow> number list" where
  \<comment> \<open>\<open>sources\<close>: the orders that a truthy \<open>depends_on\<close> names\<close>
  "dep_sources dep =
     (case dep of
        DepString s \<Rightarrow> map (\<lambda>x. parseInt (trim x)) (split_on CHR '','' s)
      | DepNumber n \<Rightarrow> [Num n]
      | DepArray xs \<Rightarrow>
          map (\<lambda>e. parseInt (case e of ElemNumber n \<Rightarrow> number_toString n | ElemString x \<Rightarrow> x)) xs
      | DepOther \<Rightarrow> [])"

definition lookup_number :: "(int \<rightharpoonup> string) \<Rightarrow> number \<Rightarrow> string option" where
  \<comment> \<open>\<open>sequenceToIdMap[n]\<close>; the order of a step is neither \<open>NaN\<close> nor infinite\<close>
  "lookup_number m n = (case n of Num i \<Rightarrow> m i | _ \<Rightarrow> None)"

definition iteration_edges :: "(int \<rightharpoonup> string) \<Rightarrow> FlowJson \<Rightarrow> Edge list" where
  \<comment> \<open>part A: the edges from the start node to the iterated steps\<close>
  "iteration_edges m json =
     (case iterable_steps json of
        Some its \<Rightarrow>
          if iterate_flow json then
            concat (map (\<lambda>seq. case m seq of
                                 Some targetId \<Rightarrow>
                                   if targetId \<noteq> [] then
                                     [\<lparr>edge_id = ''edge-start-'' @ targetId, source = ''start'',
                                       target = targetId\<rparr>]
                                   else []
                               | None \<Rightarrow> []) its)
          else []
      | None \<Rightarrow> [])"

definition step_edges :: "(int \<rightharpoonup> string) \<Rightarrow> FlowJson \<Rightarrow> FlowStep \<Rightarrow> Edge list" where
  \<comment> \<open>part B, the body of the second loop: the edges pushed for one step. The order of
      the step itself is a key of the map, so \<open>targetId\<close> is defined when the document
      holds the step.\<close>
  "step_edges m json step =
     (case m (step_sequence_order step) of
        None \<Rightarrow> []
      | Some targetId \<Rightarrow>
          if truthy_dep (step_depends_on step) then
            concat (map (\<lambda>sourceSeq. case lookup_number m sourceSeq of
                                       Some sourceId \<Rightarrow>
                                         if sourceId \<noteq> [] \<and> targetId \<noteq> [] then
                                           [\<lparr>edge_id = ''edge-'' @ sourceId @ ''-'' @ targetId,
                                             source = sourceId, target = targetId\<rparr>]
                                         else []
                                     | None \<Rightarrow> [])
                        (case step_depends_on step of Some dep \<Rightarrow> dep_sources dep | None \<Rightarrow> []))
          else if step_sequence_order step = 1 then
            (let isIterated = (iterate_flow json
                   \<and> (case iterable_steps json of Some its \<Rightarrow> 1 \<in> set its | None \<Rightarrow> False))
             in if \<not> isIterated then
                  [\<lparr>edge_id = ''edge-start-'' @ targetId, source = ''start'', target = targetId\<rparr>]
                else [])
          else
            (let prevSeq = round_to_double (step_sequence_order step - 1)
             in case m prevSeq of
                  Some sourceId \<Rightarrow>
                    if sourceId \<noteq> [] \<and> targetId \<noteq> [] then
                      [\<lparr>edge_id = ''edge-'' @ sourceId @ ''-'' @ targetId,
                        source = sourceId, target = targetId\<rparr>]
                    else []
                | None \<Rightarrow> []))"

definition restoreFlowFromJson :: "(nat \<Rightarrow> string) \<Rightarrow> FlowJson \<Rightarrow> RestoredFlow" where
  "restoreFlowFromJson stamps json =
     (let m = sequenceToIdMap stamps (steps json)
      in \<lparr>r_nodes = start_node # map (\<lambda>(step, i). restore_node stamps step i)
                                      (zip (steps json) [0..<length (steps json)]),
          r_edges = iteration_edges m json @ concat (map (step_edges m json) (steps json)),
          r_flowName = (if flow_name json \<noteq> [] then flow_name json else ''Imported Flow''),
          r_iterateFlow = iterate_flow json,
          r_getIterateList = (case get_iterate_list json of Some q \<Rightarrow> q | None \<Rightarrow> [])\<rparr>)"

section \<open>Example graphs and documents\<close>

definition mk_data :: "string \<Rightarrow> int \<Rightarrow> string \<Rightarrow> string \<Rightarrow> FlowNodeData" where
  "mk_data l n t v =
     \<lparr>label = l, sequence_order = n, type = Some t, value' = v,
      append_iteration_column = None, append_time_column = None, time_amount = None,
      time_grain = None, time_mode = None, reference_date = None, llm_model = None,
      max_retry = None, isStartNode = False\<rparr>"

definition mk_step :: "string \<Rightarrow> int \<Rightarrow> string \<Rightarrow> string \<Rightarrow> Node" where
  \<comment> \<open>a step node with identifier, order, type and content, and nothing else set\<close>
  "mk_step i n t v = \<lparr>node_id = i, data = mk_data ''Step'' n t v\<rparr>"

definition mk_edge :: "string \<Rightarrow> string \<Rightarrow> Edge" where
  "mk_edge s t = \<lparr>edge_id = ''e-'' @ s @ ''-'' @ t, source = s, target = t\<rparr>"

definition mk_json_step :: "int \<Rightarrow> FlowStep" where
  \<comment> \<open>a step record with an order, and nothing optional set\<close>
  "mk_json_step n =
     \<lparr>step_sequence_order = n, step_sequence_name = ''Step'', step_type = SQL,
      step_value = ''SELECT 1'', step_depends_on = None, step_max_retry = None,
      step_append_iteration_column = None, step_append_time_column = None,
      step_time_range = None, step_time_grain = None, step_time_mode = None,
      step_reference_date = None, step_llm_model = None\<rparr>"

definition append_edge :: "EdgeParams \<Rightarrow> Edge list \<Rightarrow> Edge list" where
  \<comment> \<open>an instance for the argument \<open>addEdge\<close>: the connection is appended as an edge\<close>
  "append_edge p eds = eds @ [mk_edge (ep_source p) (ep_target p)]"

definition sql_data ::
  "string option \<Rightarrow> number option \<Rightarrow> string option \<Rightarrow> string option \<Rightarrow> FlowNodeData" where
  \<comment> \<open>the data of a SQL step of order 1 with the given time column, amount, grain and mode\<close>
  "sql_data c a g mo = (mk_data ''Step'' 1 SQL ''SELECT 1'')
      \<lparr>append_time_column := c, time_amount := a, time_grain := g, time_mode := mo\<rparr>"

definition with_time :: "string option \<Rightarrow> string option \<Rightarrow> FlowStep" where
  \<comment> \<open>a step record of order 1 with the given \<open>time_range\<close> and \<open>time_grain\<close>\<close>
  "with_time tr g = (mk_json_step 1)\<lparr>step_time_range := tr, step_time_grain := g\<rparr>"




definition wide_doc :: FlowJson where
  \<comment> \<open>two records without \<open>depends_on\<close> whose orders are the neighbouring doubles
      \<open>2 ^ 53\<close> and \<open>2 ^ 53 + 2\<close>\<close>
  "wide_doc = \<lparr>flow_name = ''f'', iterate_flow = False, iterable_steps = None,
      get_iterate_list = None,
      steps = [mk_json_step 9007199254740992, mk_json_step 9007199254740994]\<rparr>"

definition index_stamp :: "nat \<Rightarrow> string" where
  \<comment> \<open>stamps that differ from record to record: the index of the record\<close>
  "index_stamp i = digits (int i)"


definition gap_graph :: "Node list" where
  \<comment> \<open>the start node and two steps of the orders 1 and 2, to be used without edges\<close>
  "gap_graph = [start_node, mk_step ''a'' 1 SQL ''SELECT 1'', mk_step ''b'' 2 CONCAT ''x'']"

definition wide_graph :: "Node list" where
  \<comment> \<open>the start node and two steps of the orders 1 and \<open>10 ^ 21\<close>, to be used without edges\<close>
  "wide_graph = [start_node, mk_step ''a'' 1 SQL ''SELECT 1'',
                 mk_step ''b'' 1000000000000000000000 CONCAT ''x'']"

definition chain_graph :: "Node list" where
  \<comment> \<open>the start node, a SQL step of order 1 and a CONCAT step of order 2\<close>
  "chain_graph = [start_node, mk_step ''a'' 1 SQL ''SELECT {{iteration_value}}'',
                  mk_step ''b'' 2 CONCAT ''{{step_1}}'']"

definition chain_edges :: "Edge list" where
  "chain_edges = [mk_edge ''start'' ''a'', mk_edge ''a'' ''b'']"

section \<open>Notions of the specification\<close>

definition direct_predecessors :: "Node list \<Rightarrow> Edge list \<Rightarrow> Node \<Rightarrow> int set" where
  \<comment> \<open>the sequence orders of the direct non-start predecessors of a node\<close>
  "direct_predecessors nodes edges node =
     {sequence_order (data m) | m. m \<in> set nodes \<and> \<not> isStartNode (data m)
        \<and> (\<exists>e \<in> set edges. source e = node_id m \<and> source e \<noteq> ''start'' \<and> target e = node_id node)}"

definition direct_predecessor_nodes :: "Node list \<Rightarrow> Edge list \<Rightarrow> Node \<Rightarrow> Node list" where
  \<comment> \<open>the direct non-start predecessors of a node, in stored order, each of them once\<close>
  "direct_predecessor_nodes nodes edges node =
     filter (\<lambda>m. \<not> isStartNode (data m)
                  \<and> (\<exists>e \<in> set edges. source e = node_id m \<and> source e \<noteq> ''start''
                                       \<and> target e = node_id node))
            nodes"

definition safe_integer :: "int \<Rightarrow> bool" where
  \<comment> \<open>\<open>Number.isSafeInteger\<close>: the integers that doubles count without a gap\<close>
  "safe_integer n = (\<bar>n\<bar> \<le> 2 ^ 53 - 1)"

definition decimal :: "int \<Rightarrow> string" where
  \<comment> \<open>an integer written in decimal digits, with \<open>-\<close> before a negative one\<close>
  "decimal i = (if i < 0 then CHR ''-'' # digits (- i) else digits i)"

definition safe_numbers :: "FlowNodeData \<Rightarrow> bool" where
  \<comment> \<open>the sequence order is a safe integer, and the time amount, when it is set, is a safe
      integer or \<open>NaN\<close>\<close>
  "safe_numbers d =
     (safe_integer (sequence_order d)
      \<and> (case time_amount d of
            Some (Num a) \<Rightarrow> safe_integer a
          | Some PosInfinity \<Rightarrow> False
          | Some NegInfinity \<Rightarrow> False
          | _ \<Rightarrow> True))"

definition known_grain :: "FlowNodeData \<Rightarrow> bool" where
  \<comment> \<open>a SQL node whose time column, amount and grain are all truthy has a grain of \<open>TimeGrain\<close>\<close>
  "known_grain d =
     (type d = Some SQL \<and> truthy_str (append_time_column d) \<and> truthy_num (time_amount d)
        \<and> truthy_str (time_grain d) \<longrightarrow>
      (\<exists>g \<in> set TimeGrain_values. time_grain d = Some g))"

definition fallback_neutral :: "Node list \<Rightarrow> Edge list \<Rightarrow> bool \<Rightarrow> bool" where
  \<comment> \<open>the edges that the import infers for a record without \<open>depends_on\<close> are in the graph:
      a non-start node without a direct non-start predecessor has the order 1 and, when
      iterating, an edge from the start node, or no non-start node has the order before it\<close>
  "fallback_neutral nodes edges iterating =
     (\<forall>n \<in> set nodes.
        \<not> isStartNode (data n) \<and> direct_predecessors nodes edges n = {} \<longrightarrow>
        (if sequence_order (data n) = 1
         then iterating \<longrightarrow> (\<exists>e \<in> set edges. source e = ''start'' \<and> target e = node_id n)
         else \<forall>p \<in> set nodes. \<not> isStartNode (data p) \<longrightarrow>
                sequence_order (data p) \<noteq> sequence_order (data n) - 1))"

definition recompile :: "(nat \<Rightarrow> string) \<Rightarrow> FlowJson \<Rightarrow> FlowJson" where
  \<comment> \<open>one pass: rebuild the graph and the settings from a document and compile them\<close>
  "recompile stamps json =
     (let R = restoreFlowFromJson stamps json
      in generateFlowJson (r_nodes R) (r_edges R)
           \<lparr>cfg_iterateFlow = r_iterateFlow R, cfg_getIterateList = r_getIterateList R,
            cfg_flowName = r_flowName R\<rparr>)"

section \<open>Numbers and their strings\<close>

lemma digits_not_Nil: "digits n \<noteq> []"
  by (subst digits.simps) simp

lemma join_with_Nil_iff:
  "(\<forall>x \<in> set xs. x \<noteq> []) \<Longrightarrow> join_with sep xs = [] \<longleftrightarrow> xs = []"
  by (induction sep xs rule: join_with.induct) auto

lemma digit_char_is_digit: "d < 10 \<Longrightarrow> is_digit (digit_char d)"
  by (auto simp add: is_digit_def digit_char_def less_Suc_eq numeral_eq_Suc)

lemma digit_val_digit_char: "d < 10 \<Longrightarrow> digit_val (digit_char d) = d"
  by (auto simp add: digit_val_def digit_char_def less_Suc_eq numeral_eq_Suc)

lemma digits_are_digits: "c \<in> set (digits n) \<Longrightarrow> is_digit c"
proof (induction n arbitrary: c rule: digits.induct)
  case (1 n)
  show ?case
  proof (cases "n < 10")
    case True
    then have "nat n < 10" by simp
    with True "1.prems" show ?thesis
      by (subst (asm) digits.simps) (simp add: digit_char_is_digit)
  next
    case False
    have "nat (n mod 10) < 10" by simp
    moreover from False "1.prems"
    have "c \<in> set (digits (n div 10)) \<or> c = digit_char (nat (n mod 10))"
      by (subst (asm) digits.simps) auto
    ultimately show ?thesis using False "1.IH" by (auto simp add: digit_char_is_digit)
  qed
qed

lemma digits_value_snoc: "digits_value (ds @ [c]) = 10 * digits_value ds + int (digit_val c)"
  by (simp add: digits_value_def)

lemma digits_value_digits: "0 \<le> n \<Longrightarrow> digits_value (digits n) = n"
proof (induction n rule: digits.induct)
  case (1 n)
  show ?case
  proof (cases "n < 10")
    case True
    with "1.prems" have "nat n < 10" by simp
    with True "1.prems" show ?thesis
      by (subst digits.simps) (simp add: digits_value_def digit_val_digit_char)
  next
    case False
    have m: "nat (n mod 10) < 10" by simp
    from False "1.prems" have "digits_value (digits (n div 10)) = n div 10"
      by (intro "1.IH") simp_all
    with False m show ?thesis
      by (subst digits.simps) (simp add: digits_value_snoc digit_val_digit_char)
  qed
qed


lemma is_digit_not_space: "is_digit c \<Longrightarrow> \<not> is_space c"
  by (auto simp add: is_digit_def is_space_def)

lemma is_digit_not_sign: "is_digit c \<Longrightarrow> c \<noteq> CHR ''-'' \<and> c \<noteq> CHR ''+''"
  by (auto simp add: is_digit_def)

lemma round_to_double_exact: "\<bar>x\<bar> \<le> 2 ^ 53 \<Longrightarrow> round_to_double x = x"
  by (simp add: round_to_double_def)

lemma previous_order_exact: "safe_integer n \<Longrightarrow> round_to_double (n - 1) = n - 1"
  by (rule round_to_double_exact) (simp add: safe_integer_def)

lemma number_of_safe: "safe_integer n \<Longrightarrow> number_of n = Num n"
  by (simp add: number_of_def safe_integer_def)

lemma number_toString_safe:
  assumes "safe_integer n"
  shows "number_toString n = decimal n"
proof -
  from assms have "n \<le> 2 ^ 53" "- n \<le> 2 ^ 53" by (simp_all add: safe_integer_def)
  then show ?thesis by (simp add: number_toString_def magnitude_toString_def decimal_def)
qed

lemma ToString_safe: "safe_integer n \<Longrightarrow> ToString (Num n) = decimal n"
  by (simp add: ToString_def number_toString_safe)

lemma exponent_form_chars: "c \<in> set (exponent_form v) \<Longrightarrow> number_char c"
proof (cases "digits v")
  case Nil
  then show "c \<in> set (exponent_form v) \<Longrightarrow> number_char c" by (simp add: exponent_form_def)
next
  case (Cons d ds)
  assume c: "c \<in> set (exponent_form v)"
  have d: "is_digit d" "\<forall>x \<in> set ds. is_digit x"
    using digits_are_digits [of _ v] Cons by auto
  have "set (rev (dropWhile (\<lambda>c. c = CHR ''0'') (rev ds))) \<subseteq> set ds"
    using set_dropWhileD [of _ "\<lambda>c. c = CHR ''0''" "rev ds"] by auto
  with d(2) have f: "\<forall>x \<in> set (rev (dropWhile (\<lambda>c. c = CHR ''0'') (rev ds))). is_digit x"
    by blast
  from c Cons have "c = d \<or> c = CHR ''.'' \<or> c \<in> set (rev (dropWhile (\<lambda>c. c = CHR ''0'') (rev ds)))
      \<or> c = CHR ''e'' \<or> c = CHR ''+'' \<or> c \<in> set (digits (int (length ds)))"
    by (auto simp add: exponent_form_def Let_def split: if_splits)
  with d(1) f digits_are_digits [of c "int (length ds)"] show "number_char c"
    by (auto simp add: number_char_def)
qed

lemma exponent_form_not_Nil: "exponent_form v \<noteq> []"
  using digits_not_Nil [of v] by (cases "digits v") (simp_all add: exponent_form_def Let_def)

lemma magnitude_toString_chars: "c \<in> set (magnitude_toString a) \<Longrightarrow> number_char c"
  using digits_are_digits exponent_form_chars
  by (auto simp add: magnitude_toString_def Let_def number_char_def split: if_splits)

lemma magnitude_toString_not_Nil: "magnitude_toString a \<noteq> []"
  by (simp add: magnitude_toString_def Let_def digits_not_Nil exponent_form_not_Nil)

lemma number_toString_not_Nil: "number_toString i \<noteq> []"
  by (simp add: number_toString_def magnitude_toString_not_Nil)

lemma number_toString_chars:
  "c \<in> set (number_toString i) \<Longrightarrow> c = CHR ''-'' \<or> number_char c"
  by (auto simp add: number_toString_def dest: magnitude_toString_chars split: if_splits)

lemma number_toString_no_sep:
  "CHR '','' \<notin> set (number_toString i)" "CHR ''_'' \<notin> set (number_toString i)"
  using number_toString_chars [of "CHR '',''" i] number_toString_chars [of "CHR ''_''" i]
  by (auto simp add: number_char_def is_digit_def)

lemma number_toString_no_space: "c \<in> set (number_toString i) \<Longrightarrow> \<not> is_space c"
  using number_toString_chars [of c i] by (auto simp add: number_char_def is_digit_def is_space_def)

lemma dropWhile_none: "\<forall>c \<in> set s. \<not> P c \<Longrightarrow> dropWhile P s = s"
  by (cases s) simp_all

lemma trim_no_space: "\<forall>c \<in> set s. \<not> is_space c \<Longrightarrow> trim s = s"
  by (simp add: trim_def dropWhile_none)

lemma trim_number_toString: "trim (number_toString i) = number_toString i"
  by (simp add: trim_no_space number_toString_no_space)

lemma takeWhile_digits_prefix:
  assumes "\<forall>c \<in> set ds. is_digit c" and "r = [] \<or> \<not> is_digit (hd r)"
  shows "takeWhile is_digit (ds @ r) = ds"
proof -
  from assms(2) have "takeWhile is_digit r = []" by (cases r) auto
  with assms(1) show ?thesis by (simp add: takeWhile_append2)
qed

lemma parseInt_digits:
  assumes "ds \<noteq> []" and "\<forall>c \<in> set ds. is_digit c" and "r = [] \<or> \<not> is_digit (hd r)"
  shows "parseInt (ds @ r) = number_of (digits_value ds)"
    and "parseInt (CHR ''-'' # ds @ r) = number_of (- digits_value ds)"
proof -
  from assms(1) obtain d ds' where ds: "ds = d # ds'" by (cases ds) auto
  with assms(2) have d: "is_digit d" by simp
  have tw: "takeWhile is_digit (ds @ r) = ds" using assms(2,3) by (rule takeWhile_digits_prefix)
  from d have "dropWhile is_space (ds @ r) = ds @ r"
    by (simp add: ds is_digit_not_space)
  moreover from d have "hd (ds @ r) \<noteq> CHR ''-'' \<and> hd (ds @ r) \<noteq> CHR ''+''"
    by (simp add: ds is_digit_not_sign)
  ultimately show "parseInt (ds @ r) = number_of (digits_value ds)"
    using assms(1) tw by (simp add: parseInt_def Let_def)
  have "\<not> is_space CHR ''-''" by (simp add: is_space_def)
  then have "dropWhile is_space (CHR ''-'' # ds @ r) = CHR ''-'' # ds @ r" by simp
  then show "parseInt (CHR ''-'' # ds @ r) = number_of (- digits_value ds)"
    using assms(1) tw by (simp add: parseInt_def Let_def)
qed

lemma parseInt_decimal_append:
  assumes "r = [] \<or> \<not> is_digit (hd r)"
  shows "parseInt (decimal i @ r) = number_of i"
proof (cases "i < 0")
  case True
  have "parseInt (CHR ''-'' # digits (- i) @ r) = number_of (- digits_value (digits (- i)))"
    using assms by (intro parseInt_digits) (simp_all add: digits_not_Nil digits_are_digits)
  with True show ?thesis by (simp add: decimal_def digits_value_digits)
next
  case False
  have "parseInt (digits i @ r) = number_of (digits_value (digits i))"
    using assms by (intro parseInt_digits) (simp_all add: digits_not_Nil digits_are_digits)
  with False show ?thesis by (simp add: decimal_def digits_value_digits)
qed

lemma parseInt_number_toString_append:
  assumes "safe_integer i" and "r = [] \<or> \<not> is_digit (hd r)"
  shows "parseInt (number_toString i @ r) = Num i"
  using assms by (simp add: number_toString_safe parseInt_decimal_append number_of_safe)

lemma parseInt_number_toString: "safe_integer i \<Longrightarrow> parseInt (number_toString i) = Num i"
  using parseInt_number_toString_append [of i "[]"] by simp

lemma no_dash_prefix:
  assumes "CHR ''-'' \<notin> set x" and "CHR ''-'' \<notin> set y" and "x @ CHR ''-'' # s = y @ CHR ''-'' # t"
  shows "x = y \<and> s = t"
proof -
  have tw: "takeWhile (\<lambda>c. c \<noteq> CHR ''-'') (u @ CHR ''-'' # v) = u" if "CHR ''-'' \<notin> set u"
    for u v :: string
    using that by (induction u) auto
  from assms(1) have "takeWhile (\<lambda>c. c \<noteq> CHR ''-'') (x @ CHR ''-'' # s) = x" by (rule tw)
  moreover from assms(2) have "takeWhile (\<lambda>c. c \<noteq> CHR ''-'') (y @ CHR ''-'' # t) = y" by (rule tw)
  ultimately have "x = y" using assms(3) by simp
  with assms(3) show ?thesis by simp
qed

lemma magnitude_no_dash: "CHR ''-'' \<notin> set (magnitude_toString a)"
  using magnitude_toString_chars [of "CHR ''-''" a] by (auto simp add: number_char_def is_digit_def)

lemma number_toString_dash:
  assumes "number_toString i @ CHR ''-'' # s = number_toString j @ CHR ''-'' # t"
  shows "number_toString i = number_toString j \<and> s = t"
proof -
  let ?x = "magnitude_toString (if i < 0 then - i else i)"
  let ?y = "magnitude_toString (if j < 0 then - j else j)"
  have x: "CHR ''-'' \<notin> set ?x" "?x \<noteq> []" and y: "CHR ''-'' \<notin> set ?y" "?y \<noteq> []"
    by (simp_all add: magnitude_no_dash magnitude_toString_not_Nil)
  have hx: "hd ?x \<noteq> CHR ''-''" using x by (cases ?x) auto
  have hy: "hd ?y \<noteq> CHR ''-''" using y by (cases ?y) auto
  show ?thesis
  proof (cases "i < 0")
    case True
    show ?thesis
    proof (cases "j < 0")
      case j: True
      with True assms have "?x @ CHR ''-'' # s = ?y @ CHR ''-'' # t"
        by (simp add: number_toString_def)
      with x(1) y(1) have "?x = ?y \<and> s = t" by (rule no_dash_prefix)
      with True j show ?thesis by (simp add: number_toString_def)
    next
      case j: False
      with True assms have "CHR ''-'' # ?x @ CHR ''-'' # s = ?y @ CHR ''-'' # t"
        by (simp add: number_toString_def)
      then have "hd (?y @ CHR ''-'' # t) = CHR ''-''" by (metis list.sel(1))
      with y(2) hy show ?thesis by simp
    qed
  next
    case False
    show ?thesis
    proof (cases "j < 0")
      case j: True
      with False assms have "?x @ CHR ''-'' # s = CHR ''-'' # ?y @ CHR ''-'' # t"
        by (simp add: number_toString_def)
      then have "hd (?x @ CHR ''-'' # s) = CHR ''-''" by (metis list.sel(1))
      with x(2) hx show ?thesis by simp
    next
      case j: False
      with False assms have "?x @ CHR ''-'' # s = ?y @ CHR ''-'' # t"
        by (simp add: number_toString_def)
      with x(1) y(1) have "?x = ?y \<and> s = t" by (rule no_dash_prefix)
      with False j show ?thesis by (simp add: number_toString_def)
    qed
  qed
qed

lemma gen_id_stamp:
  assumes "gen_id s t = gen_id s' t'"
  shows "number_toString s = number_toString s' \<and> t = t'"
  using assms number_toString_dash [of s t s' t'] by (simp add: gen_id_def)

lemma number_toString_inject:
  assumes "safe_integer i" and "safe_integer j" and "number_toString i = number_toString j"
  shows "i = j"
proof -
  from assms(3) have "parseInt (number_toString i) = parseInt (number_toString j)" by simp
  with assms(1,2) show ?thesis by (simp add: parseInt_number_toString)
qed

lemma gen_id_inject:
  assumes "safe_integer s" and "safe_integer s'" and "gen_id s t = gen_id s' t'"
  shows "s = s' \<and> t = t'"
  using gen_id_stamp [OF assms(3)] number_toString_inject [OF assms(1,2)] by simp

lemma split_on_not_Nil: "split_on sep s \<noteq> []"
  by (induction s) (auto split: list.splits)

lemma split_on_no_sep: "sep \<notin> set x \<Longrightarrow> split_on sep x = [x]"
  by (induction x) auto

lemma split_on_append_sep:
  "sep \<notin> set x \<Longrightarrow> split_on sep (x @ sep # r) = x # split_on sep r"
  by (induction x) auto

lemma split_on_join_with:
  assumes "xs \<noteq> []" and "\<forall>x \<in> set xs. sep \<notin> set x"
  shows "split_on sep (join_with [sep] xs) = xs"
  using assms
proof (induction "[sep]" xs rule: join_with.induct)
  case 1
  then show ?case by simp
next
  case (2 x)
  then show ?case by (simp add: split_on_no_sep)
next
  case (3 x y ys)
  then show ?case by (simp add: split_on_append_sep)
qed

lemma dep_sources_compiled:
  assumes "os \<noteq> []" and "\<forall>ord \<in> set os. safe_integer ord"
  shows "dep_sources (DepString (join_with '','' (map number_toString os))) = map Num os"
proof -
  have "split_on CHR '','' (join_with '','' (map number_toString os)) = map number_toString os"
    using assms(1) by (intro split_on_join_with) (auto simp add: number_toString_no_sep)
  moreover have "map (\<lambda>x. parseInt (trim (number_toString x))) os = map Num os"
    using assms(2) by (intro map_cong) (simp_all add: trim_number_toString parseInt_number_toString)
  ultimately show ?thesis
    by (simp add: dep_sources_def o_def)
qed

text \<open>
  Above the safe integers the model rounds and prints as the doubles do: the order before
  \<open>2 ^ 53 + 2\<close> is \<open>2 ^ 53\<close>, a number from \<open>10 ^ 21\<close> on is printed in exponent form and
  \<open>parseInt\<close> reads its first digit back, and a run of digits beyond the largest double is
  read as \<open>Infinity\<close>.
\<close>

lemma large_numbers:
  "round_to_double (9007199254740994 - 1) = 9007199254740992"
  "number_toString 1000000000000000000000 = ''1e+21''"
  "parseInt ''1e+21'' = Num 1"
  "number_toString 1152921504606846976 = ''1152921504606847000''"
  "parseInt ''9007199254740993'' = Num 9007199254740992"
  "parseInt (replicate 309 CHR ''9'') = PosInfinity"
  by code_simp+

section \<open>Properties of the validator\<close>

lemma takeWhile_le_index:
  assumes "i < length xs" and "\<not> P (xs ! i)"
  shows "length (takeWhile P xs) \<le> i"
proof (rule ccontr)
  assume "\<not> length (takeWhile P xs) \<le> i"
  then have lt: "i < length (takeWhile P xs)" by simp
  then have "takeWhile P xs ! i = xs ! i" by (rule takeWhile_nth)
  moreover from lt have "takeWhile P xs ! i \<in> set (takeWhile P xs)" by simp
  ultimately have "P (xs ! i)" by (metis set_takeWhileD)
  with assms show False by simp
qed

lemma indexOf_nth_distinct:
  assumes "distinct xs" and "i < length xs"
  shows "indexOf xs (xs ! i) = int i"
proof -
  let ?j = "length (takeWhile (\<lambda>y. y \<noteq> xs ! i) xs)"
  from assms(2) have mem: "xs ! i \<in> set xs" by simp
  have le: "?j \<le> i" using assms(2) by (intro takeWhile_le_index) simp_all
  with assms(2) have jlt: "?j < length xs" by simp
  then have "\<not> (xs ! ?j \<noteq> xs ! i)" by (rule nth_length_takeWhile)
  then have "xs ! ?j = xs ! i" by simp
  with assms jlt have "?j = i" by (simp add: nth_eq_iff_index_eq)
  with mem show ?thesis by (simp add: indexOf_def)
qed

lemma indexOf_le_first:
  assumes "i < length xs" and "xs ! i = x"
  shows "indexOf xs x \<le> int i"
proof -
  from assms have "x \<in> set xs" by auto
  moreover have "length (takeWhile (\<lambda>y. y \<noteq> x) xs) \<le> i"
    using assms by (intro takeWhile_le_index) simp_all
  ultimately show ?thesis by (simp add: indexOf_def)
qed

lemma all_first_index_iff_distinct:
  "(\<forall>i < length xs. indexOf xs (xs ! i) = int i) \<longleftrightarrow> distinct xs"
proof
  assume a: "\<forall>i < length xs. indexOf xs (xs ! i) = int i"
  show "distinct xs"
  proof (rule ccontr)
    assume "\<not> distinct xs"
    then obtain i j where ij: "i < j" "j < length xs" "xs ! i = xs ! j"
      by (metis distinct_conv_nth linorder_neqE_nat)
    then have "indexOf xs (xs ! j) \<le> int i" by (intro indexOf_le_first) simp_all
    moreover from a ij have "indexOf xs (xs ! j) = int j" by simp
    ultimately show False using ij by simp
  qed
next
  assume "distinct xs"
  then show "\<forall>i < length xs. indexOf xs (xs ! i) = int i"
    by (simp add: indexOf_nth_distinct)
qed

lemma set_zip_indices: "set (zip xs [0..<length xs]) = {(xs ! i, i) | i. i < length xs}"
  by (auto simp add: set_zip)

lemma duplicateOrders_empty_iff:
  "duplicateOrders nodes = [] \<longleftrightarrow> distinct (map (\<lambda>n. sequence_order (data n)) nodes)"
proof -
  let ?os = "map (\<lambda>n. sequence_order (data n)) nodes"
  have "duplicateOrders nodes = [] \<longleftrightarrow>
        (\<forall>p \<in> set (zip ?os [0..<length ?os]). indexOf ?os (fst p) = int (snd p))"
    by (auto simp add: duplicateOrders_def Let_def filter_empty_conv)
  also have "\<dots> \<longleftrightarrow> (\<forall>i < length ?os. indexOf ?os (?os ! i) = int i)"
    unfolding set_zip_indices by auto
  also have "\<dots> \<longleftrightarrow> distinct ?os" by (rule all_first_index_iff_distinct)
  finally show ?thesis .
qed

lemma hasDuplicates_iff:
  "hasDuplicates nodes \<longleftrightarrow> \<not> distinct (map (\<lambda>n. sequence_order (data n)) nodes)"
  using duplicateOrders_empty_iff [of nodes] by (simp add: hasDuplicates_def)

lemma set_if: "set (if b then xs else ys) = (if b then set xs else set ys)"
  by (rule if_distrib)

lemma tag_warnings_Step:
  "w \<in> set (tag_warnings it node preds conn tag) \<Longrightarrow> hd w = CHR ''S''"
  by (simp add: tag_warnings_def Let_def set_if split: if_splits)

lemma node_warnings_Step:
  "w \<in> set (node_warnings nodes edges it node) \<Longrightarrow> hd w = CHR ''S''"
  by (auto simp add: node_warnings_def Let_def set_if split: if_splits dest: tag_warnings_Step)

lemma per_node_warnings_Step:
  "w \<in> set (concat (map (node_warnings nodes edges it) ns)) \<Longrightarrow> hd w = CHR ''S''"
  by (auto dest: node_warnings_Step)

lemma count_list_0_iff: "count_list xs x = 0 \<longleftrightarrow> x \<notin> set xs"
  by (induction xs) auto

lemma count_dup_per_node:
  "count_list (concat (map (node_warnings nodes edges it) ns)) ''Duplicate Sequence # Detected'' = 0"
  using per_node_warnings_Step [of "''Duplicate Sequence # Detected''" nodes edges it ns]
  by (auto simp add: count_list_0_iff)

text \<open>
  Claim C5, as amended. The validator emits the duplicate-order diagnostic exactly once
  when two nodes of the graph share a sequence order, the start node with its order 0
  counted among them, and not at all when the orders of all nodes are distinct.
\<close>

theorem duplicate_order_diagnostic:
  "count_list (flowWarnings nodes edges iterateFlow getIterateList) ''Duplicate Sequence # Detected''
     = (if distinct (map (\<lambda>n. sequence_order (data n)) nodes) then 0 else 1)"
  by (simp add: flowWarnings_def Let_def hasDuplicates_iff count_dup_per_node)

text \<open>
  The claim as written counts the non-start nodes only. A single step that is given the
  order 0 shares it with no other step, and the diagnostic is emitted: \<open>duplicateOrders\<close>
  reads the orders of all nodes.
\<close>

theorem duplicate_order_counterexample:
  "distinct (map (\<lambda>n. sequence_order (data n))
       (filter (\<lambda>n. \<not> isStartNode (data n)) [start_node, mk_step ''a'' 0 CONCAT []]))
   \<and> ''Duplicate Sequence # Detected''
       \<in> set (flowWarnings [start_node, mk_step ''a'' 0 CONCAT []] [] False [])"
  by (simp add: flowWarnings_def hasDuplicates_def duplicateOrders_def indexOf_def start_node_def mk_step_def mk_data_def Let_def)

theorem duplicate_order_witness:
  "count_list (flowWarnings [start_node, mk_step ''a'' 0 CONCAT []] [] False [])
     ''Duplicate Sequence # Detected'' = 1"
  using duplicate_order_diagnostic [of "[start_node, mk_step ''a'' 0 CONCAT []]" "[]" False "[]"]
  by (simp add: start_node_def mk_step_def mk_data_def)

lemma foldl_pick_props:
  fixes f :: "Node \<Rightarrow> Node \<Rightarrow> Node"
  defines "f \<equiv> (\<lambda>prev current.
      if sequence_order (data prev) > sequence_order (data current) then prev else current)"
  shows "foldl f a xs \<in> insert a (set xs)
    \<and> sequence_order (data a) \<le> sequence_order (data (foldl f a xs))
    \<and> (\<forall>n \<in> set xs. sequence_order (data n) \<le> sequence_order (data (foldl f a xs)))"
proof (induction xs arbitrary: a)
  case Nil
  then show ?case by simp
next
  case (Cons x xs)
  have ih: "foldl f (f a x) xs \<in> insert (f a x) (set xs)
    \<and> sequence_order (data (f a x)) \<le> sequence_order (data (foldl f (f a x) xs))
    \<and> (\<forall>n \<in> set xs. sequence_order (data n) \<le> sequence_order (data (foldl f (f a x) xs)))"
    by (rule Cons.IH)
  have fa: "f a x = a \<or> f a x = x" by (simp add: f_def)
  have ge: "sequence_order (data a) \<le> sequence_order (data (f a x))
      \<and> sequence_order (data x) \<le> sequence_order (data (f a x))"
    by (simp add: f_def)
  from ih fa ge show ?case by auto
qed

lemma lastNode_in_set: "xs \<noteq> [] \<Longrightarrow> lastNode xs \<in> set xs"
  using foldl_pick_props [of "hd xs" xs] by (auto simp add: lastNode_def)

lemma lastNode_maximal: "n \<in> set xs \<Longrightarrow> sequence_order (data n) \<le> sequence_order (data (lastNode xs))"
  using foldl_pick_props [of "hd xs" xs] by (simp add: lastNode_def)

lemma lastNode_unique_max:
  assumes "m \<in> set xs"
    and "\<forall>n \<in> set xs. n \<noteq> m \<longrightarrow> sequence_order (data n) < sequence_order (data m)"
  shows "lastNode xs = m"
proof (rule ccontr)
  assume ne: "lastNode xs \<noteq> m"
  from assms(1) have "xs \<noteq> []" by auto
  then have "lastNode xs \<in> set xs" by (rule lastNode_in_set)
  with assms(2) ne have "sequence_order (data (lastNode xs)) < sequence_order (data m)" by simp
  moreover from assms(1) have "sequence_order (data m) \<le> sequence_order (data (lastNode xs))"
    by (rule lastNode_maximal)
  ultimately show False by simp
qed

lemma terminal_not_per_node:
  "''Flow must end with CONCAT'' \<notin> set (node_warnings nodes edges it x)"
  using node_warnings_Step [of "''Flow must end with CONCAT''" nodes edges it x] by auto

lemma terminal_warning_iff:
  "''Flow must end with CONCAT'' \<in> set (flowWarnings nodes edges it q) \<longleftrightarrow>
     filter (\<lambda>n. \<not> isStartNode (data n)) nodes \<noteq> []
     \<and> type (data (lastNode (filter (\<lambda>n. \<not> isStartNode (data n)) nodes))) \<noteq> Some CONCAT"
  by (simp add: flowWarnings_def Let_def terminal_not_per_node)

text \<open>
  Claim C6. Without a non-start node the terminal-type diagnostic is never emitted. With
  one, the validator picks a non-start node of maximal sequence order (the last of them in
  stored order) and emits the diagnostic exactly when its type is not CONCAT; in
  particular, when one node has an order above all others, exactly when that node is not
  CONCAT. Inserting anywhere a CONCAT node whose order is above the order of every
  non-start node gives a graph without the diagnostic.
\<close>

theorem terminal_type_diagnostic:
  fixes nodes :: "Node list"
  defines "stepNodes \<equiv> filter (\<lambda>n. \<not> isStartNode (data n)) nodes"
  shows
    "(stepNodes = [] \<longrightarrow>
        ''Flow must end with CONCAT'' \<notin> set (flowWarnings nodes edges iterateFlow getIterateList))
     \<and> (stepNodes \<noteq> [] \<longrightarrow>
          lastNode stepNodes \<in> set stepNodes
          \<and> (\<forall>n \<in> set stepNodes.
                sequence_order (data n) \<le> sequence_order (data (lastNode stepNodes)))
          \<and> (''Flow must end with CONCAT'' \<in> set (flowWarnings nodes edges iterateFlow getIterateList)
                \<longleftrightarrow> type (data (lastNode stepNodes)) \<noteq> Some CONCAT))
     \<and> (\<forall>m \<in> set stepNodes.
          (\<forall>n \<in> set stepNodes. n \<noteq> m \<longrightarrow> sequence_order (data n) < sequence_order (data m)) \<longrightarrow>
          (''Flow must end with CONCAT'' \<in> set (flowWarnings nodes edges iterateFlow getIterateList)
             \<longleftrightarrow> type (data m) \<noteq> Some CONCAT))
     \<and> (\<forall>xs ys c. nodes = xs @ ys \<and> \<not> isStartNode (data c) \<and> type (data c) = Some CONCAT
            \<and> (\<forall>n \<in> set stepNodes. sequence_order (data n) < sequence_order (data c)) \<longrightarrow>
          ''Flow must end with CONCAT''
             \<notin> set (flowWarnings (xs @ c # ys) edges iterateFlow getIterateList))"
proof (intro conjI impI ballI allI)
  assume "stepNodes = []"
  then show "''Flow must end with CONCAT'' \<notin> set (flowWarnings nodes edges iterateFlow getIterateList)"
    by (simp add: terminal_warning_iff stepNodes_def)
next
  assume "stepNodes \<noteq> []"
  then show "lastNode stepNodes \<in> set stepNodes" by (rule lastNode_in_set)
next
  fix n :: Node
  assume "n \<in> set stepNodes"
  then show "sequence_order (data n) \<le> sequence_order (data (lastNode stepNodes))"
    by (rule lastNode_maximal)
next
  assume "stepNodes \<noteq> []"
  then show "''Flow must end with CONCAT'' \<in> set (flowWarnings nodes edges iterateFlow getIterateList)
                \<longleftrightarrow> type (data (lastNode stepNodes)) \<noteq> Some CONCAT"
    by (simp add: terminal_warning_iff stepNodes_def)
next
  fix m :: Node
  assume m: "m \<in> set stepNodes"
    and mx: "\<forall>n \<in> set stepNodes. n \<noteq> m \<longrightarrow> sequence_order (data n) < sequence_order (data m)"
  then have "lastNode stepNodes = m" by (rule lastNode_unique_max)
  moreover from m have "stepNodes \<noteq> []" by auto
  ultimately show "''Flow must end with CONCAT'' \<in> set (flowWarnings nodes edges iterateFlow getIterateList)
             \<longleftrightarrow> type (data m) \<noteq> Some CONCAT"
    by (simp add: terminal_warning_iff stepNodes_def)
next
  fix xs ys :: "Node list" and c :: Node
  assume a: "nodes = xs @ ys \<and> \<not> isStartNode (data c) \<and> type (data c) = Some CONCAT
            \<and> (\<forall>n \<in> set stepNodes. sequence_order (data n) < sequence_order (data c))"
  let ?S = "filter (\<lambda>n. \<not> isStartNode (data n)) (xs @ c # ys)"
  from a have cin: "c \<in> set ?S" by simp
  from a have "\<forall>n \<in> set ?S. n \<noteq> c \<longrightarrow> sequence_order (data n) < sequence_order (data c)"
    by (auto simp add: stepNodes_def)
  with cin have "lastNode ?S = c" by (rule lastNode_unique_max)
  with a show "''Flow must end with CONCAT''
             \<notin> set (flowWarnings (xs @ c # ys) edges iterateFlow getIterateList)"
    by (simp add: terminal_warning_iff)
qed

theorem terminal_type_witness:
  "''Flow must end with CONCAT'' \<in> set (flowWarnings [start_node, mk_step ''a'' 1 SQL ''x''] [] False [])
   \<and> ''Flow must end with CONCAT''
        \<notin> set (flowWarnings [start_node, mk_step ''a'' 1 SQL ''x'', mk_step ''b'' 2 CONCAT ''y''] [] False [])
   \<and> ''Flow must end with CONCAT'' \<notin> set (flowWarnings [start_node] [] False [])"
proof -
  note t = terminal_type_diagnostic [of "[start_node, mk_step ''a'' 1 SQL ''x'']" "[]" False "[]"]
  note e = terminal_type_diagnostic [of "[start_node]" "[]" False "[]"]
  have 1: "''Flow must end with CONCAT'' \<in> set (flowWarnings [start_node, mk_step ''a'' 1 SQL ''x''] [] False [])"
    using t by (simp add: start_node_def mk_step_def mk_data_def lastNode_def)
  have "[start_node, mk_step ''a'' 1 SQL ''x''] = [start_node, mk_step ''a'' 1 SQL ''x''] @ []
      \<and> \<not> isStartNode (data (mk_step ''b'' 2 CONCAT ''y''))
      \<and> type (data (mk_step ''b'' 2 CONCAT ''y'')) = Some CONCAT
      \<and> (\<forall>n \<in> set (filter (\<lambda>n. \<not> isStartNode (data n)) [start_node, mk_step ''a'' 1 SQL ''x'']).
            sequence_order (data n) < sequence_order (data (mk_step ''b'' 2 CONCAT ''y'')))"
    by (simp add: start_node_def mk_step_def mk_data_def)
  with t have 2: "''Flow must end with CONCAT''
        \<notin> set (flowWarnings ([start_node, mk_step ''a'' 1 SQL ''x''] @ mk_step ''b'' 2 CONCAT ''y'' # []) [] False [])"
    by blast
  have 3: "''Flow must end with CONCAT'' \<notin> set (flowWarnings [start_node] [] False [])"
    using e by (simp add: start_node_def)
  from 1 2 3 show ?thesis by simp
qed

lemma step_tag_not_iteration: "startsWith tag ''step_'' \<Longrightarrow> tag \<noteq> ''iteration_value''"
  by (auto simp add: startsWith_def)

lemma step_tag_one_hop:
  assumes "startsWith tag ''step_''" and "parseInt (drop 5 tag) = Num N"
  shows "tag_warnings it node preds conn tag =
           (if \<exists>p \<in> set preds. sequence_order (data p) = N then []
            else [''Step '' @ number_toString (sequence_order (data node)) @ '': {{'' @ tag
                    @ ''}} used but Step '' @ number_toString N @ '' is not connected''])"
  using assms step_tag_not_iteration [OF assms(1)]
  by (simp add: tag_warnings_def Let_def ToString_def)

lemma set_uniq: "set (uniq xs) = set xs"
  by (simp add: uniq_def)

lemma missing_predecessor_flagged:
  assumes "node \<in> set nodes" and "\<not> isStartNode (data node)"
    and "tag \<in> set (match_tags (value' (data node)))"
    and "startsWith tag ''step_''" and "parseInt (drop 5 tag) = Num N"
    and "\<not> (\<exists>p \<in> set nodes. sequence_order (data p) = N
              \<and> (\<exists>e \<in> set edges. target e = node_id node \<and> source e = node_id p))"
  shows "''Step '' @ number_toString (sequence_order (data node)) @ '': {{'' @ tag
           @ ''}} used but Step '' @ number_toString N @ '' is not connected''
         \<in> set (flowWarnings nodes edges it q)"
proof -
  let ?preds = "filter (\<lambda>n. node_id n \<in> set (map source (filter (\<lambda>e. target e = node_id node) edges))) nodes"
  let ?msg = "''Step '' @ number_toString (sequence_order (data node)) @ '': {{'' @ tag
           @ ''}} used but Step '' @ number_toString N @ '' is not connected''"
  from assms(6) have "\<not> (\<exists>p \<in> set ?preds. sequence_order (data p) = N)" by fastforce
  then have "tag_warnings it node ?preds (''start'' \<in> set (map source (filter (\<lambda>e. target e = node_id node) edges))) tag = [?msg]"
    using step_tag_one_hop [OF assms(4,5)] by simp
  with assms(3) have "?msg \<in> set (node_warnings nodes edges it node)"
    using assms(2) by (auto simp add: node_warnings_def Let_def set_uniq intro!: bexI [of _ tag])
  with assms(1) show ?thesis by (auto simp add: flowWarnings_def)
qed

text \<open>
  Claim C2, at the input where the validator departs from it. The step of order 1 uses
  \<open>{{step_0}}\<close> and its only incoming edge comes from the start node. The claim leaves
  start-sourced edges out of the one-hop check, so the tag has no predecessor of order 0
  and must be flagged. The validator builds \<open>predecessors\<close> from all incoming edges: the
  start node, of order 0, is among them, and no warning at all is returned. The two
  lemmas above give the part of the rule the code keeps: only the nodes one edge away
  count, whatever paths lead further back.
\<close>

theorem start_edge_satisfies_step_0:
  "flowWarnings [start_node, mk_step ''a'' 1 CONCAT ''{{step_0}}''] [mk_edge ''start'' ''a''] False [] = []"
  by code_simp

section \<open>Properties of the connect operation\<close>

lemma validateConnections_iff:
  "\<not> validateConnections iterateFlow src tgt eds \<longleftrightarrow>
     src = ''start'' \<and> (\<exists>e \<in> set eds. source e = ''start'') \<and> \<not> iterateFlow"
  by (auto simp add: validateConnections_def Let_def filter_empty_conv)

text \<open>
  Claim C3. For a connection between two named nodes, the connect operation rejects
  exactly when the source is the start node, an edge from the start node exists already
  and \<open>iterateFlow\<close> is off, and then the edge list is returned as it was. In every
  other case the connection is handed to \<open>addEdge\<close> with its source and target, whatever
  the target and the edges present: no test of the graph's shape, cycles included,
  stands in between.
\<close>

theorem connect_rejection:
  assumes "src \<noteq> []" and "tgt \<noteq> []"
  shows "(\<not> validateConnections iterateFlow src tgt eds \<longleftrightarrow>
            src = ''start'' \<and> (\<exists>e \<in> set eds. source e = ''start'') \<and> \<not> iterateFlow)
    \<and> (\<not> validateConnections iterateFlow src tgt eds \<longrightarrow>
          onConnect addEdge iterateFlow \<lparr>conn_source = Some src, conn_target = Some tgt\<rparr> eds = eds)
    \<and> (validateConnections iterateFlow src tgt eds \<longrightarrow>
          (\<exists>p. ep_source p = src \<and> ep_target p = tgt
             \<and> onConnect addEdge iterateFlow \<lparr>conn_source = Some src, conn_target = Some tgt\<rparr> eds
                 = addEdge p eds))"
proof (intro conjI impI)
  show "\<not> validateConnections iterateFlow src tgt eds \<longleftrightarrow>
            src = ''start'' \<and> (\<exists>e \<in> set eds. source e = ''start'') \<and> \<not> iterateFlow"
    by (rule validateConnections_iff)
next
  assume "\<not> validateConnections iterateFlow src tgt eds"
  with assms show "onConnect addEdge iterateFlow \<lparr>conn_source = Some src, conn_target = Some tgt\<rparr> eds = eds"
    by (simp add: onConnect_def)
next
  assume v: "validateConnections iterateFlow src tgt eds"
  let ?p = "\<lparr>ep_source = src, ep_target = tgt,
             ep_color = (if src = ''start'' \<and> iterateFlow then ''#059669'' else ''#2563eb''),
             ep_strokeDasharray = (if src = ''start'' \<and> iterateFlow then ''5,5'' else ''0'')\<rparr>"
  from v assms have "onConnect addEdge iterateFlow \<lparr>conn_source = Some src, conn_target = Some tgt\<rparr> eds
                 = addEdge ?p eds"
    by (simp add: onConnect_def Let_def)
  moreover have "ep_source ?p = src \<and> ep_target ?p = tgt" by simp
  ultimately show "\<exists>p. ep_source p = src \<and> ep_target p = tgt
             \<and> onConnect addEdge iterateFlow \<lparr>conn_source = Some src, conn_target = Some tgt\<rparr> eds
                 = addEdge p eds"
    by blast
qed

theorem connect_rejection_witness:
  "onConnect append_edge False \<lparr>conn_source = Some ''start'', conn_target = Some ''b''\<rparr>
      [mk_edge ''start'' ''a''] = [mk_edge ''start'' ''a'']
   \<and> onConnect append_edge False \<lparr>conn_source = Some ''a'', conn_target = Some ''a''\<rparr>
      [mk_edge ''start'' ''a''] = [mk_edge ''start'' ''a'', mk_edge ''a'' ''a'']"
proof -
  have ne: "''start'' \<noteq> []" "''b'' \<noteq> []" "''a'' \<noteq> []" by simp_all
  have r: "\<not> validateConnections False ''start'' ''b'' [mk_edge ''start'' ''a'']"
    using connect_rejection [OF ne(1) ne(2), of False "[mk_edge ''start'' ''a'']" append_edge]
    by (simp add: mk_edge_def)
  have 1: "onConnect append_edge False \<lparr>conn_source = Some ''start'', conn_target = Some ''b''\<rparr>
      [mk_edge ''start'' ''a''] = [mk_edge ''start'' ''a'']"
    using connect_rejection [OF ne(1) ne(2), of False "[mk_edge ''start'' ''a'']" append_edge] r
    by blast
  have v: "validateConnections False ''a'' ''a'' [mk_edge ''start'' ''a'']"
    using connect_rejection [OF ne(3) ne(3), of False "[mk_edge ''start'' ''a'']" append_edge]
    by simp
  obtain p where p: "ep_source p = ''a''" "ep_target p = ''a''"
     "onConnect append_edge False \<lparr>conn_source = Some ''a'', conn_target = Some ''a''\<rparr>
        [mk_edge ''start'' ''a''] = append_edge p [mk_edge ''start'' ''a'']"
    using connect_rejection [OF ne(3) ne(3), of False "[mk_edge ''start'' ''a'']" append_edge] v
    by blast
  then have 2: "onConnect append_edge False \<lparr>conn_source = Some ''a'', conn_target = Some ''a''\<rparr>
      [mk_edge ''start'' ''a''] = [mk_edge ''start'' ''a'', mk_edge ''a'' ''a'']"
    by (simp add: append_edge_def)
  from 1 2 show ?thesis by simp
qed

section \<open>Properties of the compiler\<close>

lemma sort_Nil_iff: "sort xs = [] \<longleftrightarrow> xs = []"
  by (metis length_sort length_0_conv)

lemma sort_distinct_eq: "distinct xs \<Longrightarrow> sort xs = sorted_list_of_set (set xs)"
  by (simp add: sorted_list_of_set_sort_remdups distinct_remdups_id)

lemma direct_predecessors_code [code]:
  "direct_predecessors nodes edges node =
     set (map (\<lambda>n. sequence_order (data n))
              (filter (\<lambda>n. node_id n \<in> set (map source (filter (\<lambda>e. target e = node_id node \<and> source e \<noteq> ''start'') edges))
                           \<and> \<not> isStartNode (data n)) nodes))"
  unfolding direct_predecessors_def by (rule set_eqI) (fastforce simp add: image_iff)

lemma dependsOnOrders_sorted_set:
  assumes "distinct (map (\<lambda>n. sequence_order (data n)) (filter (\<lambda>n. \<not> isStartNode (data n)) nodes))"
  shows "dependsOnOrders nodes edges node =
           join_with '','' (map number_toString (sorted_list_of_set (direct_predecessors nodes edges node)))"
proof -
  let ?A = "\<lambda>n. node_id n \<in> set (map source (filter (\<lambda>e. target e = node_id node \<and> source e \<noteq> ''start'') edges))"
  let ?os = "map (\<lambda>n. sequence_order (data n)) (filter (\<lambda>n. ?A n \<and> \<not> isStartNode (data n)) nodes)"
  have "filter (\<lambda>n. ?A n \<and> \<not> isStartNode (data n)) nodes
          = filter ?A (filter (\<lambda>n. \<not> isStartNode (data n)) nodes)"
    by (induction nodes) simp_all
  moreover from assms
  have "distinct (map (\<lambda>n. sequence_order (data n))
                      (filter ?A (filter (\<lambda>n. \<not> isStartNode (data n)) nodes)))"
    by (rule distinct_map_filter)
  ultimately have d: "distinct ?os" by simp
  have s: "set ?os = direct_predecessors nodes edges node"
    by (simp add: direct_predecessors_code)
  from d have "sort ?os = sorted_list_of_set (set ?os)"
    by (rule sort_distinct_eq)
  with s have "sort ?os = sorted_list_of_set (direct_predecessors nodes edges node)"
    by (simp only:)
  then show ?thesis by (simp only: dependsOnOrders_def Let_def)
qed

lemma finite_direct_predecessors: "finite (direct_predecessors nodes edges node)"
proof -
  have "direct_predecessors nodes edges node \<subseteq> (\<lambda>m. sequence_order (data m)) ` set nodes"
    by (auto simp add: direct_predecessors_def)
  then show ?thesis by (rule finite_subset) simp
qed

lemma direct_predecessor_nodes_filter:
  "filter (\<lambda>n. node_id n \<in> set (map source (filter (\<lambda>e. target e = node_id node \<and> source e \<noteq> ''start'') edges))
                \<and> \<not> isStartNode (data n)) nodes
     = direct_predecessor_nodes nodes edges node"
  unfolding direct_predecessor_nodes_def by (rule filter_cong) (auto simp add: image_iff)

lemma dependsOnOrders_nodes:
  "dependsOnOrders nodes edges node =
     join_with '','' (map number_toString
        (sort (map (\<lambda>m. sequence_order (data m)) (direct_predecessor_nodes nodes edges node))))"
  by (simp only: dependsOnOrders_def Let_def direct_predecessor_nodes_filter)

lemma direct_predecessors_nodes:
  "direct_predecessors nodes edges node
     = set (map (\<lambda>m. sequence_order (data m)) (direct_predecessor_nodes nodes edges node))"
  by (simp only: direct_predecessors_code direct_predecessor_nodes_filter)

lemma step_depends_on_nodes:
  "step_depends_on (compile_step nodes edges node) =
     (if direct_predecessor_nodes nodes edges node = [] then None
      else Some (DepString (join_with '','' (map number_toString
             (sort (map (\<lambda>m. sequence_order (data m))
                        (direct_predecessor_nodes nodes edges node)))))))"
proof -
  let ?os = "sort (map (\<lambda>m. sequence_order (data m)) (direct_predecessor_nodes nodes edges node))"
  have "join_with '','' (map number_toString ?os) = [] \<longleftrightarrow> ?os = []"
    by (simp add: join_with_Nil_iff number_toString_not_Nil del: sort_key_simps)
  also have "\<dots> \<longleftrightarrow> direct_predecessor_nodes nodes edges node = []"
    by (simp add: sort_Nil_iff)
  finally show ?thesis
    by (simp add: compile_step_def Let_def dependsOnOrders_nodes)
qed

lemma predecessor_orders_distinct:
  assumes "distinct (map (\<lambda>n. sequence_order (data n)) (filter (\<lambda>n. \<not> isStartNode (data n)) nodes))"
  shows "sort (map (\<lambda>m. sequence_order (data m)) (direct_predecessor_nodes nodes edges node))
           = sorted_list_of_set (direct_predecessors nodes edges node)"
proof -
  let ?A = "\<lambda>m. \<exists>e \<in> set edges. source e = node_id m \<and> source e \<noteq> ''start'' \<and> target e = node_id node"
  let ?os = "map (\<lambda>m. sequence_order (data m)) (direct_predecessor_nodes nodes edges node)"
  have "direct_predecessor_nodes nodes edges node
          = filter ?A (filter (\<lambda>n. \<not> isStartNode (data n)) nodes)"
    unfolding direct_predecessor_nodes_def by simp
  moreover from assms
  have "distinct (map (\<lambda>n. sequence_order (data n))
                      (filter ?A (filter (\<lambda>n. \<not> isStartNode (data n)) nodes)))"
    by (rule distinct_map_filter)
  ultimately have "distinct ?os" by simp
  then have "sort ?os = sorted_list_of_set (set ?os)" by (rule sort_distinct_eq)
  then show ?thesis by (simp only: direct_predecessors_nodes)
qed

text \<open>
  Claim C4, as amended. In every compiled document, the \<open>depends_on\<close> of each step, in
  document order, is absent when the node has no direct non-start predecessor, and is
  otherwise the comma-joined list of the printed sequence orders of these predecessors, in
  ascending order and with one entry for each predecessor node. When the non-start nodes
  have distinct sequence orders, this is the ascending list without repetition of the
  orders of the direct non-start predecessors.
\<close>

theorem compiled_depends_on:
  "map step_depends_on (steps (generateFlowJson nodes edges globalConfig)) =
     map (\<lambda>node. if direct_predecessor_nodes nodes edges node = [] then None
                  else Some (DepString (join_with '','' (map number_toString
                         (sort (map (\<lambda>m. sequence_order (data m))
                                    (direct_predecessor_nodes nodes edges node)))))))
         (sort_key (\<lambda>n. sequence_order (data n)) (filter (\<lambda>n. \<not> isStartNode (data n)) nodes))
   \<and> (\<forall>node. sorted (sort (map (\<lambda>m. sequence_order (data m))
                                  (direct_predecessor_nodes nodes edges node)))
          \<and> length (sort (map (\<lambda>m. sequence_order (data m))
                               (direct_predecessor_nodes nodes edges node)))
               = length (direct_predecessor_nodes nodes edges node)
          \<and> set (sort (map (\<lambda>m. sequence_order (data m))
                            (direct_predecessor_nodes nodes edges node)))
               = direct_predecessors nodes edges node)
   \<and> (distinct (map (\<lambda>n. sequence_order (data n)) (filter (\<lambda>n. \<not> isStartNode (data n)) nodes)) \<longrightarrow>
        (\<forall>node. sort (map (\<lambda>m. sequence_order (data m)) (direct_predecessor_nodes nodes edges node))
                  = sorted_list_of_set (direct_predecessors nodes edges node)))"
proof (intro conjI allI impI)
  show "map step_depends_on (steps (generateFlowJson nodes edges globalConfig)) =
     map (\<lambda>node. if direct_predecessor_nodes nodes edges node = [] then None
                  else Some (DepString (join_with '','' (map number_toString
                         (sort (map (\<lambda>m. sequence_order (data m))
                                    (direct_predecessor_nodes nodes edges node)))))))
         (sort_key (\<lambda>n. sequence_order (data n)) (filter (\<lambda>n. \<not> isStartNode (data n)) nodes))"
    by (simp add: generateFlowJson_def Let_def step_depends_on_nodes del: sort_key_simps)
next
  fix node
  show "sorted (sort (map (\<lambda>m. sequence_order (data m)) (direct_predecessor_nodes nodes edges node)))"
    by (rule sorted_sort)
  show "length (sort (map (\<lambda>m. sequence_order (data m)) (direct_predecessor_nodes nodes edges node)))
          = length (direct_predecessor_nodes nodes edges node)"
    by simp
  show "set (sort (map (\<lambda>m. sequence_order (data m)) (direct_predecessor_nodes nodes edges node)))
          = direct_predecessors nodes edges node"
    by (simp add: direct_predecessors_nodes)
next
  fix node
  assume "distinct (map (\<lambda>n. sequence_order (data n)) (filter (\<lambda>n. \<not> isStartNode (data n)) nodes))"
  then show "sort (map (\<lambda>m. sequence_order (data m)) (direct_predecessor_nodes nodes edges node))
                  = sorted_list_of_set (direct_predecessors nodes edges node)"
    by (rule predecessor_orders_distinct)
qed

text \<open>
  The claim as written has the list free of repetition in every compiled document. The
  compiler keeps one entry for each predecessor node, and two predecessors that share the
  order 1 give \<open>1,1\<close>.
\<close>

theorem compiled_depends_on_counterexample:
  "map step_depends_on (steps (generateFlowJson
      [start_node, mk_step ''a'' 1 SQL ''x'', mk_step ''b'' 1 SQL ''y'', mk_step ''c'' 2 CONCAT ''z'']
      [mk_edge ''a'' ''c'', mk_edge ''b'' ''c'']
      \<lparr>cfg_iterateFlow = False, cfg_getIterateList = [], cfg_flowName = ''f''\<rparr>))
   = [None, None, Some (DepString ''1,1'')]"
  by code_simp

theorem compiled_depends_on_witness:
  "map step_depends_on (steps (generateFlowJson
      [start_node, mk_step ''c'' 3 CONCAT ''z'', mk_step ''b'' 2 SQL ''y'', mk_step ''a'' 1 SQL ''x'']
      [mk_edge ''b'' ''c'', mk_edge ''a'' ''c'', mk_edge ''b'' ''c'', mk_edge ''start'' ''c'', mk_edge ''start'' ''a'']
      \<lparr>cfg_iterateFlow = False, cfg_getIterateList = [], cfg_flowName = ''f''\<rparr>))
   = [None, None, Some (DepString ''1,2'')]
   \<and> sorted_list_of_set (direct_predecessors
        [start_node, mk_step ''c'' 3 CONCAT ''z'', mk_step ''b'' 2 SQL ''y'', mk_step ''a'' 1 SQL ''x'']
        [mk_edge ''b'' ''c'', mk_edge ''a'' ''c'', mk_edge ''b'' ''c'', mk_edge ''start'' ''c'', mk_edge ''start'' ''a'']
        (mk_step ''c'' 3 CONCAT ''z'')) = [1, 2]"
proof -
  let ?nodes = "[start_node, mk_step ''c'' 3 CONCAT ''z'', mk_step ''b'' 2 SQL ''y'', mk_step ''a'' 1 SQL ''x'']"
  let ?edges = "[mk_edge ''b'' ''c'', mk_edge ''a'' ''c'', mk_edge ''b'' ''c'', mk_edge ''start'' ''c'', mk_edge ''start'' ''a'']"
  let ?cfg = "\<lparr>cfg_iterateFlow = False, cfg_getIterateList = [], cfg_flowName = ''f''\<rparr>"
  note t = compiled_depends_on [of ?nodes ?edges ?cfg]
  have d: "distinct (map (\<lambda>n. sequence_order (data n)) (filter (\<lambda>n. \<not> isStartNode (data n)) ?nodes))"
    by (simp add: start_node_def mk_step_def mk_data_def)
  from t have "map step_depends_on (steps (generateFlowJson ?nodes ?edges ?cfg))
        = map (\<lambda>node. if direct_predecessor_nodes ?nodes ?edges node = [] then None
                  else Some (DepString (join_with '','' (map number_toString
                         (sort (map (\<lambda>m. sequence_order (data m))
                                    (direct_predecessor_nodes ?nodes ?edges node)))))))
         (sort_key (\<lambda>n. sequence_order (data n)) (filter (\<lambda>n. \<not> isStartNode (data n)) ?nodes))"
    by (rule conjunct1)
  also have "\<dots> = [None, None, Some (DepString ''1,2'')]"
    by code_simp
  finally have 1: "map step_depends_on (steps (generateFlowJson ?nodes ?edges ?cfg))
        = [None, None, Some (DepString ''1,2'')]" .
  from t d have "sorted_list_of_set (direct_predecessors ?nodes ?edges (mk_step ''c'' 3 CONCAT ''z''))
      = sort (map (\<lambda>m. sequence_order (data m))
                 (direct_predecessor_nodes ?nodes ?edges (mk_step ''c'' 3 CONCAT ''z'')))"
    by simp
  also have "\<dots> = [1, 2]" by code_simp
  finally have 2: "sorted_list_of_set (direct_predecessors ?nodes ?edges (mk_step ''c'' 3 CONCAT ''z''))
      = [1, 2]" .
  from 1 2 show ?thesis by (rule conjI)
qed

lemma time_range_of_truthy:
  assumes "time_amount d = Some a" and "truthy_num (Some a)" and "time_grain d = Some g" and "g \<noteq> []"
  shows "time_range_of d = Some (''last_'' @ ToString a @ ''_'' @ g @ ''s'')"
  using assms by (simp add: time_range_of_def)

lemma time_range_of_falsy:
  assumes "\<not> (truthy_num (time_amount d) \<and> truthy_str (time_grain d))"
  shows "time_range_of d = None"
  using assms by (auto simp add: time_range_of_def truthy_str_def truthy_num_def split: option.splits)

text \<open>
  Claim C7, as amended. The compiled record of a SQL step holds \<open>time_range\<close> exactly when
  \<open>append_time_column\<close>, \<open>time_amount\<close> and \<open>time_grain\<close> are all truthy (a non-empty
  column name, an amount that is neither 0 nor \<open>NaN\<close>, a non-empty grain), and then its
  value is \<open>last_\<close>, the amount as JavaScript prints the number, \<open>_\<close>, the grain and a
  final \<open>s\<close>. An amount that is a safe integer is printed in decimal digits; \<open>time_grain\<close>
  and \<open>time_mode\<close> are copied as they are exactly when they and \<open>append_time_column\<close> are
  truthy. Amount 7 and grain \<open>day\<close> give \<open>last_7_days\<close>.
\<close>

theorem compiled_time_range:
  assumes "type (data node) = Some SQL"
  shows "(\<forall>c a g. append_time_column (data node) = Some c \<and> c \<noteq> []
            \<and> time_amount (data node) = Some a \<and> truthy_num (Some a)
            \<and> time_grain (data node) = Some g \<and> g \<noteq> [] \<longrightarrow>
          step_time_range (compile_step nodes edges node)
            = Some (''last_'' @ ToString a @ ''_'' @ g @ ''s''))
    \<and> (\<forall>c i g. append_time_column (data node) = Some c \<and> c \<noteq> []
            \<and> time_amount (data node) = Some (Num i) \<and> i \<noteq> 0 \<and> safe_integer i
            \<and> time_grain (data node) = Some g \<and> g \<noteq> [] \<longrightarrow>
          step_time_range (compile_step nodes edges node)
            = Some (''last_'' @ decimal i @ ''_'' @ g @ ''s''))
    \<and> (\<not> (truthy_str (append_time_column (data node)) \<and> truthy_num (time_amount (data node))
            \<and> truthy_str (time_grain (data node))) \<longrightarrow>
          step_time_range (compile_step nodes edges node) = None)
    \<and> step_time_grain (compile_step nodes edges node)
         = (if truthy_str (append_time_column (data node)) \<and> truthy_str (time_grain (data node))
            then time_grain (data node) else None)
    \<and> step_time_mode (compile_step nodes edges node)
         = (if truthy_str (append_time_column (data node)) \<and> truthy_str (time_mode (data node))
            then time_mode (data node) else None)"
proof (intro conjI allI impI)
  fix c a g
  assume "append_time_column (data node) = Some c \<and> c \<noteq> []
            \<and> time_amount (data node) = Some a \<and> truthy_num (Some a)
            \<and> time_grain (data node) = Some g \<and> g \<noteq> []"
  with assms show "step_time_range (compile_step nodes edges node)
            = Some (''last_'' @ ToString a @ ''_'' @ g @ ''s'')"
    by (simp add: compile_step_def Let_def truthy_str_def time_range_of_truthy)
next
  fix c i g
  assume a: "append_time_column (data node) = Some c \<and> c \<noteq> []
            \<and> time_amount (data node) = Some (Num i) \<and> i \<noteq> 0 \<and> safe_integer i
            \<and> time_grain (data node) = Some g \<and> g \<noteq> []"
  then have "truthy_num (Some (Num i))" by (simp add: truthy_num_def)
  with a have "time_range_of (data node) = Some (''last_'' @ ToString (Num i) @ ''_'' @ g @ ''s'')"
    by (intro time_range_of_truthy) simp_all
  with a assms show "step_time_range (compile_step nodes edges node)
            = Some (''last_'' @ decimal i @ ''_'' @ g @ ''s'')"
    by (simp add: compile_step_def Let_def truthy_str_def ToString_safe)
next
  assume "\<not> (truthy_str (append_time_column (data node)) \<and> truthy_num (time_amount (data node))
            \<and> truthy_str (time_grain (data node)))"
  then show "step_time_range (compile_step nodes edges node) = None"
    by (auto simp add: compile_step_def Let_def time_range_of_falsy)
next
  from assms show "step_time_grain (compile_step nodes edges node)
         = (if truthy_str (append_time_column (data node)) \<and> truthy_str (time_grain (data node))
            then time_grain (data node) else None)"
    by (simp add: compile_step_def Let_def)
next
  from assms show "step_time_mode (compile_step nodes edges node)
         = (if truthy_str (append_time_column (data node)) \<and> truthy_str (time_mode (data node))
            then time_mode (data node) else None)"
    by (simp add: compile_step_def Let_def)
qed

text \<open>
  Being set is not enough: with the amount set to 0, the value the property panel stores
  for an emptied field, all three fields are set and no \<open>time_range\<close> is compiled.
\<close>

theorem compiled_time_range_counterexample:
  "append_time_column (sql_data (Some ''ts'') (Some (Num 0)) (Some ''day'') None) = Some ''ts''
   \<and> time_amount (sql_data (Some ''ts'') (Some (Num 0)) (Some ''day'') None) = Some (Num 0)
   \<and> time_grain (sql_data (Some ''ts'') (Some (Num 0)) (Some ''day'') None) = Some ''day''
   \<and> type (sql_data (Some ''ts'') (Some (Num 0)) (Some ''day'') None) = Some SQL
   \<and> step_time_range (compile_step [] []
        \<lparr>node_id = ''a'', data = sql_data (Some ''ts'') (Some (Num 0)) (Some ''day'') None\<rparr>) = None"
  by (simp add: sql_data_def mk_data_def compile_step_def Let_def time_range_of_def truthy_str_def
        truthy_num_def)

text \<open>
  The amount 7 is printed in decimal digits; the amount \<open>10 ^ 21\<close>, which the property
  panel accepts as well, is printed in exponent form.
\<close>

theorem compiled_time_range_witness:
  "step_time_range (compile_step [] []
        \<lparr>node_id = ''a'', data = sql_data (Some ''ts'') (Some (Num 7)) (Some ''day'') (Some ''closed_open'')\<rparr>)
     = Some ''last_7_days''
   \<and> step_time_grain (compile_step [] []
        \<lparr>node_id = ''a'', data = sql_data (Some ''ts'') (Some (Num 7)) (Some ''day'') (Some ''closed_open'')\<rparr>)
     = Some ''day''
   \<and> step_time_mode (compile_step [] []
        \<lparr>node_id = ''a'', data = sql_data (Some ''ts'') (Some (Num 7)) (Some ''day'') (Some ''closed_open'')\<rparr>)
     = Some ''closed_open''
   \<and> step_time_range (compile_step [] []
        \<lparr>node_id = ''a'',
          data = sql_data (Some ''ts'') (Some (Num 1000000000000000000000)) (Some ''day'') None\<rparr>)
     = Some ''last_1e+21_days''"
proof -
  let ?n = "\<lparr>node_id = ''a'', data = sql_data (Some ''ts'') (Some (Num 7)) (Some ''day'') (Some ''closed_open'')\<rparr>"
  let ?w = "\<lparr>node_id = ''a'',
          data = sql_data (Some ''ts'') (Some (Num 1000000000000000000000)) (Some ''day'') None\<rparr>"
  have t: "type (data ?n) = Some SQL" by (simp add: sql_data_def mk_data_def)
  have f: "append_time_column (data ?n) = Some ''ts'' \<and> ''ts'' \<noteq> []
            \<and> time_amount (data ?n) = Some (Num 7) \<and> (7::int) \<noteq> 0 \<and> safe_integer 7
            \<and> time_grain (data ?n) = Some ''day'' \<and> ''day'' \<noteq> []"
    by (simp add: sql_data_def mk_data_def safe_integer_def)
  have m: "time_mode (data ?n) = Some ''closed_open''" by (simp add: sql_data_def mk_data_def)
  have n7: "decimal 7 = ''7''" by code_simp
  from compiled_time_range [OF t, of "[]" "[]"] f
  have "step_time_range (compile_step [] [] ?n) = Some (''last_'' @ decimal 7 @ ''_'' @ ''day'' @ ''s'')"
    by blast
  then have 1: "step_time_range (compile_step [] [] ?n) = Some ''last_7_days''"
    by (simp add: n7)
  from compiled_time_range [OF t, of "[]" "[]"] f
  have 2: "step_time_grain (compile_step [] [] ?n) = Some ''day''"
    by (simp add: truthy_str_def)
  from compiled_time_range [OF t, of "[]" "[]"] f m
  have 3: "step_time_mode (compile_step [] [] ?n) = Some ''closed_open''"
    by (simp add: truthy_str_def)
  have tw: "type (data ?w) = Some SQL" by (simp add: sql_data_def mk_data_def)
  have fw: "append_time_column (data ?w) = Some ''ts'' \<and> ''ts'' \<noteq> []
            \<and> time_amount (data ?w) = Some (Num 1000000000000000000000)
            \<and> truthy_num (Some (Num 1000000000000000000000))
            \<and> time_grain (data ?w) = Some ''day'' \<and> ''day'' \<noteq> []"
    by (simp add: sql_data_def mk_data_def truthy_num_def)
  have e21: "ToString (Num 1000000000000000000000) = ''1e+21''" by code_simp
  from compiled_time_range [OF tw, of "[]" "[]"] fw
  have "step_time_range (compile_step [] [] ?w)
      = Some (''last_'' @ ToString (Num 1000000000000000000000) @ ''_'' @ ''day'' @ ''s'')"
    by blast
  then have 4: "step_time_range (compile_step [] [] ?w) = Some ''last_1e+21_days''"
    by (simp add: e21)
  from 1 2 3 4 show ?thesis by simp
qed

section \<open>Properties of the reconstructor\<close>

text \<open>
  Claim C8, as amended. From a non-empty \<open>time_range\<close> the rebuilt node takes its amount
  and its grain apart from each other: with fewer than three parts between the
  underscores both stay unset; otherwise the amount is \<open>parseInt\<close> of part 1 (which is
  \<open>NaN\<close> when the part does not begin with an integer), whatever the grain, and the grain
  is part 2 without one final \<open>s\<close> when that is \<open>month\<close> or \<open>day\<close>, and unset otherwise,
  whatever the amount. Without a \<open>time_range\<close> (absent or empty) the amount is unset and
  a non-empty \<open>time_grain\<close> of the record is taken as it is.
\<close>

theorem reverse_parse_time_range:
  fixes stamps :: "nat \<Rightarrow> string" and step :: FlowStep and i :: nat
  defines "d \<equiv> data (restore_node stamps step i)"
  shows "(\<forall>tr. step_time_range step = Some tr \<and> tr \<noteq> [] \<and> length (split_on CHR ''_'' tr) < 3 \<longrightarrow>
            time_amount d = None \<and> time_grain d = None)
    \<and> (\<forall>tr. step_time_range step = Some tr \<and> tr \<noteq> [] \<and> 3 \<le> length (split_on CHR ''_'' tr) \<longrightarrow>
            time_amount d = Some (parseInt (split_on CHR ''_'' tr ! 1))
            \<and> time_grain d =
                (let p = split_on CHR ''_'' tr ! 2; g = (if endsWith p ''s'' then butlast p else p)
                 in if g = ''month'' \<or> g = ''day'' then Some g else None))
    \<and> (\<not> truthy_str (step_time_range step) \<longrightarrow>
            time_amount d = None
            \<and> time_grain d = (if truthy_str (step_time_grain step) then step_time_grain step else None))"
  by (auto simp add: d_def restore_node_def parse_time_range_def Let_def TimeGrain_values_def
        truthy_str_def split: option.splits)

text \<open>
  A failure of one step leaves the result of the other: \<open>last_7_weeks\<close> names no known
  grain, the grain stays unset, and the amount is set to 7.
\<close>

theorem reverse_parse_counterexample:
  "step_time_range (with_time (Some ''last_7_weeks'') None) = Some ''last_7_weeks''
   \<and> time_grain (data (restore_node (\<lambda>i. ''x'') (with_time (Some ''last_7_weeks'') None) 0)) = None
   \<and> time_amount (data (restore_node (\<lambda>i. ''x'') (with_time (Some ''last_7_weeks'') None) 0)) = Some (Num 7)"
  by code_simp

theorem reverse_parse_witness:
  "time_amount (data (restore_node (\<lambda>i. ''x'') (with_time (Some ''last_7_days'') None) 0)) = Some (Num 7)
   \<and> time_grain (data (restore_node (\<lambda>i. ''x'') (with_time (Some ''last_7_days'') None) 0)) = Some ''day''
   \<and> time_amount (data (restore_node (\<lambda>i. ''x'') (with_time (Some ''7_days'') None) 0)) = None
   \<and> time_grain (data (restore_node (\<lambda>i. ''x'') (with_time (Some ''7_days'') None) 0)) = None
   \<and> time_amount (data (restore_node (\<lambda>i. ''x'') (with_time None (Some ''month'')) 0)) = None
   \<and> time_grain (data (restore_node (\<lambda>i. ''x'') (with_time None (Some ''month'')) 0)) = Some ''month''"
proof -
  have s1: "step_time_range (with_time (Some ''last_7_days'') None) = Some ''last_7_days''
      \<and> ''last_7_days'' \<noteq> [] \<and> 3 \<le> length (split_on CHR ''_'' ''last_7_days'')"
    by (simp add: with_time_def)
  have p1: "split_on CHR ''_'' ''last_7_days'' = [''last'', ''7'', ''days'']" by simp
  have p2: "parseInt ''7'' = Num 7" by code_simp
  have e: "endsWith ''days'' ''s''" by (simp add: endsWith_def)
  from reverse_parse_time_range [where stamps = "\<lambda>i. ''x''" and step = "with_time (Some ''last_7_days'') None" and i = 0] s1
  have a: "time_amount (data (restore_node (\<lambda>i. ''x'') (with_time (Some ''last_7_days'') None) 0))
             = Some (parseInt (split_on CHR ''_'' ''last_7_days'' ! 1))
        \<and> time_grain (data (restore_node (\<lambda>i. ''x'') (with_time (Some ''last_7_days'') None) 0))
             = (let p = split_on CHR ''_'' ''last_7_days'' ! 2; g = (if endsWith p ''s'' then butlast p else p)
                 in if g = ''month'' \<or> g = ''day'' then Some g else None)"
    by blast
  have s2: "step_time_range (with_time (Some ''7_days'') None) = Some ''7_days''
      \<and> ''7_days'' \<noteq> [] \<and> length (split_on CHR ''_'' ''7_days'') < 3"
    by (simp add: with_time_def)
  from reverse_parse_time_range [where stamps = "\<lambda>i. ''x''" and step = "with_time (Some ''7_days'') None" and i = 0] s2
  have b: "time_amount (data (restore_node (\<lambda>i. ''x'') (with_time (Some ''7_days'') None) 0)) = None
        \<and> time_grain (data (restore_node (\<lambda>i. ''x'') (with_time (Some ''7_days'') None) 0)) = None"
    by blast
  have s3: "\<not> truthy_str (step_time_range (with_time None (Some ''month'')))
      \<and> truthy_str (step_time_grain (with_time None (Some ''month'')))
      \<and> step_time_grain (with_time None (Some ''month'')) = Some ''month''"
    by (simp add: with_time_def truthy_str_def)
  from reverse_parse_time_range [where stamps = "\<lambda>i. ''x''" and step = "with_time None (Some ''month'')" and i = 0] s3
  have c: "time_amount (data (restore_node (\<lambda>i. ''x'') (with_time None (Some ''month'')) 0)) = None
        \<and> time_grain (data (restore_node (\<lambda>i. ''x'') (with_time None (Some ''month'')) 0)) = Some ''month''"
    by (simp add: truthy_str_def)
  from a b c show ?thesis by (simp add: p1 p2 e Let_def)
qed

lemma zip_index_snoc:
  "zip (xs @ [x]) [0..<length (xs @ [x])] = zip xs [0..<length xs] @ [(x, length xs)]"
  by simp

lemma sequenceToIdMap_Nil: "sequenceToIdMap stamps [] = Map.empty"
  by (simp add: sequenceToIdMap_def)

lemma sequenceToIdMap_snoc:
  "sequenceToIdMap stamps (ss @ [x]) =
     (sequenceToIdMap stamps ss)
       (step_sequence_order x \<mapsto> gen_id (step_sequence_order x) (stamps (length ss)))"
  unfolding sequenceToIdMap_def zip_index_snoc by simp

lemma sequenceToIdMap_Some:
  "sequenceToIdMap stamps ss s = Some v \<longleftrightarrow>
     (\<exists>j < length ss. step_sequence_order (ss ! j) = s
        \<and> (\<forall>k. j < k \<and> k < length ss \<longrightarrow> step_sequence_order (ss ! k) \<noteq> s)
        \<and> v = gen_id s (stamps j))"
proof (induction ss arbitrary: v rule: rev_induct)
  case Nil
  show ?case by (simp add: sequenceToIdMap_Nil)
next
  case (snoc x ss)
  let ?n = "length ss"
  show ?case
  proof (cases "step_sequence_order x = s")
    case True
    have "(\<exists>j < Suc ?n. step_sequence_order ((ss @ [x]) ! j) = s
        \<and> (\<forall>k. j < k \<and> k < Suc ?n \<longrightarrow> step_sequence_order ((ss @ [x]) ! k) \<noteq> s)
        \<and> v = gen_id s (stamps j)) \<longleftrightarrow> v = gen_id s (stamps ?n)"
    proof
      assume "\<exists>j < Suc ?n. step_sequence_order ((ss @ [x]) ! j) = s
        \<and> (\<forall>k. j < k \<and> k < Suc ?n \<longrightarrow> step_sequence_order ((ss @ [x]) ! k) \<noteq> s)
        \<and> v = gen_id s (stamps j)"
      then obtain j where j: "j < Suc ?n"
        "\<forall>k. j < k \<and> k < Suc ?n \<longrightarrow> step_sequence_order ((ss @ [x]) ! k) \<noteq> s"
        "v = gen_id s (stamps j)" by blast
      have "j = ?n"
      proof (rule ccontr)
        assume "j \<noteq> ?n"
        with j(1) have "j < ?n" by simp
        moreover from j(2)
        have "j < ?n \<and> ?n < Suc ?n \<longrightarrow> step_sequence_order ((ss @ [x]) ! ?n) \<noteq> s"
          by (rule spec)
        ultimately have "step_sequence_order ((ss @ [x]) ! ?n) \<noteq> s" by simp
        with True show False by simp
      qed
      with j(3) show "v = gen_id s (stamps ?n)" by simp
    next
      assume "v = gen_id s (stamps ?n)"
      with True show "\<exists>j < Suc ?n. step_sequence_order ((ss @ [x]) ! j) = s
        \<and> (\<forall>k. j < k \<and> k < Suc ?n \<longrightarrow> step_sequence_order ((ss @ [x]) ! k) \<noteq> s)
        \<and> v = gen_id s (stamps j)"
        by (intro exI [of _ ?n]) simp
    qed
    with True show ?thesis by (auto simp add: sequenceToIdMap_snoc)
  next
    case False
    have "(\<exists>j < Suc ?n. step_sequence_order ((ss @ [x]) ! j) = s
        \<and> (\<forall>k. j < k \<and> k < Suc ?n \<longrightarrow> step_sequence_order ((ss @ [x]) ! k) \<noteq> s)
        \<and> v = gen_id s (stamps j)) \<longleftrightarrow>
      (\<exists>j < ?n. step_sequence_order (ss ! j) = s
        \<and> (\<forall>k. j < k \<and> k < ?n \<longrightarrow> step_sequence_order (ss ! k) \<noteq> s)
        \<and> v = gen_id s (stamps j))"
      (is "?L \<longleftrightarrow> ?R")
    proof
      assume ?L
      then obtain j where j: "j < Suc ?n" "step_sequence_order ((ss @ [x]) ! j) = s"
        "\<forall>k. j < k \<and> k < Suc ?n \<longrightarrow> step_sequence_order ((ss @ [x]) ! k) \<noteq> s"
        "v = gen_id s (stamps j)" by blast
      from j(1,2) False have jn: "j < ?n" by (cases "j = ?n") auto
      with j(2) have a: "step_sequence_order (ss ! j) = s" by (simp add: nth_append)
      have b: "\<forall>k. j < k \<and> k < ?n \<longrightarrow> step_sequence_order (ss ! k) \<noteq> s"
      proof (intro allI impI)
        fix k assume k: "j < k \<and> k < ?n"
        with j(3) have "step_sequence_order ((ss @ [x]) ! k) \<noteq> s" by simp
        with k show "step_sequence_order (ss ! k) \<noteq> s" by (simp add: nth_append)
      qed
      from jn a b j(4) show ?R by blast
    next
      assume ?R
      then obtain j where j: "j < ?n" "step_sequence_order (ss ! j) = s"
        "\<forall>k. j < k \<and> k < ?n \<longrightarrow> step_sequence_order (ss ! k) \<noteq> s"
        "v = gen_id s (stamps j)" by blast
      have b: "\<forall>k. j < k \<and> k < Suc ?n \<longrightarrow> step_sequence_order ((ss @ [x]) ! k) \<noteq> s"
      proof (intro allI impI)
        fix k assume k: "j < k \<and> k < Suc ?n"
        show "step_sequence_order ((ss @ [x]) ! k) \<noteq> s"
        proof (cases "k = ?n")
          case True
          with False show ?thesis by simp
        next
          case False
          with k have "k < ?n" by simp
          with j(3) k show ?thesis by (simp add: nth_append)
        qed
      qed
      from j(1,2) have "j < Suc ?n \<and> step_sequence_order ((ss @ [x]) ! j) = s"
        by (simp add: nth_append)
      with b j(4) show ?L by blast
    qed
    with False snoc.IH [of v] show ?thesis by (simp add: sequenceToIdMap_snoc)
  qed
qed

lemma sequenceToIdMap_None:
  "sequenceToIdMap stamps ss s = None \<longleftrightarrow> s \<notin> step_sequence_order ` set ss"
proof (induction ss rule: rev_induct)
  case Nil
  show ?case by (simp add: sequenceToIdMap_Nil)
next
  case (snoc x ss)
  then show ?case by (auto simp add: sequenceToIdMap_snoc)
qed

lemma sequenceToIdMap_last:
  assumes "j < length ss"
    and "\<forall>k. j < k \<and> k < length ss \<longrightarrow> step_sequence_order (ss ! k) \<noteq> step_sequence_order (ss ! j)"
  shows "sequenceToIdMap stamps ss (step_sequence_order (ss ! j))
           = Some (gen_id (step_sequence_order (ss ! j)) (stamps j))"
  using assms by (subst sequenceToIdMap_Some) blast

lemma map_zip_index: "map (\<lambda>(x, i). f x i) (zip xs [0..<length xs]) = map (\<lambda>i. f (xs ! i) i) [0..<length xs]"
  by (rule nth_equalityI) simp_all

lemma restored_nodes:
  "r_nodes (restoreFlowFromJson stamps json) =
     start_node # map (\<lambda>i. restore_node stamps (steps json ! i) i) [0..<length (steps json)]"
  by (simp add: restoreFlowFromJson_def Let_def map_zip_index)

lemma restored_node_nth:
  "i < length (steps json) \<Longrightarrow>
     r_nodes (restoreFlowFromJson stamps json) ! Suc i = restore_node stamps (steps json ! i) i"
  by (simp add: restored_nodes)

lemma node_id_restore_node [simp]:
  "node_id (restore_node stamps step i) = gen_id (step_sequence_order step) (stamps i)"
  by (simp add: restore_node_def)

lemma gen_id_not_start: "gen_id s t \<noteq> ''start''"
  by (simp add: gen_id_def)

lemma gen_id_not_Nil: "gen_id s t \<noteq> []"
  by (simp add: gen_id_def)


lemma distinct_restored_ids:
  assumes "distinct (map node_id (r_nodes (restoreFlowFromJson stamps json)))"
    and "i < length (steps json)" and "j < length (steps json)"
    and "gen_id (step_sequence_order (steps json ! i)) (stamps i)
          = gen_id (step_sequence_order (steps json ! j)) (stamps j)"
  shows "i = j"
proof -
  let ?f = "\<lambda>i. gen_id (step_sequence_order (steps json ! i)) (stamps i)"
  from assms(1) have "distinct (map ?f [0..<length (steps json)])"
    by (simp add: restored_nodes o_def)
  then have "inj_on ?f (set [0..<length (steps json)])"
    by (simp add: distinct_map)
  with assms(2,3,4) show ?thesis by (auto dest: inj_onD)
qed

lemma iteration_edges_endpoints:
  "e \<in> set (iteration_edges m json) \<Longrightarrow> source e = ''start'' \<and> (\<exists>s. m s = Some (target e))"
  by (auto simp add: iteration_edges_def set_if split: option.splits if_splits)

lemma lookup_number_Some:
  "lookup_number m x = Some v \<Longrightarrow> \<exists>s. x = Num s \<and> m s = Some v"
  by (cases x) (simp_all add: lookup_number_def)

lemma step_edges_endpoints:
  assumes "e \<in> set (step_edges m json step)"
  shows "m (step_sequence_order step) = Some (target e)
     \<and> (source e = ''start'' \<or> (\<exists>s. m s = Some (source e)))"
proof (cases "m (step_sequence_order step)")
  case None
  with assms show ?thesis by (simp add: step_edges_def)
next
  case (Some t)
  show ?thesis
  proof (cases "truthy_dep (step_depends_on step)")
    case True
    with assms Some obtain x where
      "e \<in> set (case lookup_number m x of
                   Some sourceId \<Rightarrow>
                     if sourceId \<noteq> [] \<and> t \<noteq> [] then
                       [\<lparr>edge_id = ''edge-'' @ sourceId @ ''-'' @ t, source = sourceId, target = t\<rparr>]
                     else []
                 | None \<Rightarrow> [])"
      by (auto simp add: step_edges_def)
    then obtain sid where "lookup_number m x = Some sid" "source e = sid" "target e = t"
      by (cases "lookup_number m x") (auto simp add: set_if split: if_splits)
    with Some lookup_number_Some [of m x sid] show ?thesis by auto
  next
    case False
    show ?thesis
    proof (cases "step_sequence_order step = 1")
      case True
      with assms Some False show ?thesis
        by (auto simp add: step_edges_def Let_def set_if split: if_splits)
    next
      case ne: False
      with assms Some False
      have "e \<in> set (case m (round_to_double (step_sequence_order step - 1)) of
                   Some sourceId \<Rightarrow>
                     if sourceId \<noteq> [] \<and> t \<noteq> [] then
                       [\<lparr>edge_id = ''edge-'' @ sourceId @ ''-'' @ t, source = sourceId, target = t\<rparr>]
                     else []
                 | None \<Rightarrow> [])"
        by (simp add: step_edges_def Let_def)
      then obtain sid where "m (round_to_double (step_sequence_order step - 1)) = Some sid"
          "source e = sid" "target e = t"
        by (cases "m (round_to_double (step_sequence_order step - 1))")
           (auto simp add: set_if split: if_splits)
      with Some show ?thesis by auto
    qed
  qed
qed


lemma lookup_only_last:
  assumes "distinct (map node_id (r_nodes (restoreFlowFromJson stamps json)))"
    and "i < length (steps json)"
    and "sequenceToIdMap stamps (steps json) s
           = Some (gen_id (step_sequence_order (steps json ! i)) (stamps i))"
  shows "s = step_sequence_order (steps json ! i)
     \<and> (\<forall>k. i < k \<and> k < length (steps json) \<longrightarrow>
            step_sequence_order (steps json ! k) \<noteq> step_sequence_order (steps json ! i))"
proof -
  from assms(3) obtain j where j: "j < length (steps json)"
      "step_sequence_order (steps json ! j) = s"
      "\<forall>k. j < k \<and> k < length (steps json) \<longrightarrow> step_sequence_order (steps json ! k) \<noteq> s"
      "gen_id (step_sequence_order (steps json ! i)) (stamps i) = gen_id s (stamps j)"
    unfolding sequenceToIdMap_Some by blast
  from j(2,4) have "gen_id (step_sequence_order (steps json ! i)) (stamps i)
      = gen_id (step_sequence_order (steps json ! j)) (stamps j)" by simp
  with assms(1,2) j(1) have "i = j" by (rule distinct_restored_ids)
  with j(2,3) show ?thesis by simp
qed



lemma iteration_edge_present:
  assumes "iterate_flow json" and "iterable_steps json = Some its" and "s \<in> set its"
    and "m s = Some t" and "t \<noteq> []"
  shows "\<lparr>edge_id = ''edge-start-'' @ t, source = ''start'', target = t\<rparr>
           \<in> set (iteration_edges m json)"
proof -
  let ?f = "\<lambda>seq. case m seq of
                     Some targetId \<Rightarrow>
                       if targetId \<noteq> [] then
                         [\<lparr>edge_id = ''edge-start-'' @ targetId, source = ''start'',
                           target = targetId\<rparr>]
                       else []
                   | None \<Rightarrow> []"
  from assms(4,5) have "\<lparr>edge_id = ''edge-start-'' @ t, source = ''start'', target = t\<rparr> \<in> set (?f s)"
    by simp
  with assms(3) have "\<lparr>edge_id = ''edge-start-'' @ t, source = ''start'', target = t\<rparr>
      \<in> set (concat (map ?f its))"
    unfolding set_concat by (intro UN_I [of "?f s"]) simp_all
  with assms(1,2) show ?thesis by (simp add: iteration_edges_def)
qed

lemma iteration_edges_subset:
  "set (iteration_edges (sequenceToIdMap stamps (steps json)) json)
     \<subseteq> set (r_edges (restoreFlowFromJson stamps json))"
  by (simp add: restoreFlowFromJson_def Let_def)

lemma step_edges_subset:
  "step \<in> set (steps json) \<Longrightarrow>
     set (step_edges (sequenceToIdMap stamps (steps json)) json step)
       \<subseteq> set (r_edges (restoreFlowFromJson stamps json))"
  by (auto simp add: restoreFlowFromJson_def Let_def)


lemma fallback_edges:
  assumes "\<not> truthy_dep (step_depends_on step)" and "m (step_sequence_order step) = Some t"
  shows "step_edges m json step =
     (if step_sequence_order step = 1 then
        (if iterate_flow json \<and> (\<exists>its. iterable_steps json = Some its \<and> 1 \<in> set its) then []
         else [\<lparr>edge_id = ''edge-start-'' @ t, source = ''start'', target = t\<rparr>])
      else (case m (round_to_double (step_sequence_order step - 1)) of
              Some sourceId \<Rightarrow>
                if sourceId \<noteq> [] \<and> t \<noteq> [] then
                  [\<lparr>edge_id = ''edge-'' @ sourceId @ ''-'' @ t, source = sourceId, target = t\<rparr>]
                else []
            | None \<Rightarrow> []))"
  using assms by (auto simp add: step_edges_def Let_def split: option.splits)

lemma lookup_Some_index:
  assumes "sequenceToIdMap stamps ss s = Some v"
  shows "\<exists>i < length ss. step_sequence_order (ss ! i) = s \<and> v = gen_id s (stamps i)"
  using assms unfolding sequenceToIdMap_Some by blast





lemma iteration_edges_listed:
  assumes "e \<in> set (iteration_edges m json)"
  shows "iterate_flow json \<and> source e = ''start''
     \<and> (\<exists>its s. iterable_steps json = Some its \<and> s \<in> set its \<and> m s = Some (target e))"
proof (cases "iterable_steps json")
  case None
  with assms show ?thesis by (simp add: iteration_edges_def)
next
  case (Some its)
  show ?thesis
  proof (cases "iterate_flow json")
    case False
    with assms Some show ?thesis by (simp add: iteration_edges_def)
  next
    case True
    with assms Some obtain s where s: "s \<in> set its"
      "e \<in> set (case m s of
                   Some targetId \<Rightarrow>
                     if targetId \<noteq> [] then
                       [\<lparr>edge_id = ''edge-start-'' @ targetId, source = ''start'', target = targetId\<rparr>]
                     else []
                 | None \<Rightarrow> [])"
      by (auto simp add: iteration_edges_def)
    from s(2) have "source e = ''start'' \<and> m s = Some (target e)"
      by (cases "m s") (auto simp add: set_if split: if_splits)
    with True Some s(1) show ?thesis by blast
  qed
qed





text \<open>
  Beyond the safe integers the order before \<open>n\<close> is what the subtraction of doubles gives.
  The order before \<open>2 ^ 53 + 2\<close> is \<open>2 ^ 53\<close>, and a record of that order gets its edge from
  a record of the order \<open>2 ^ 53\<close>.
\<close>

lemma fallback_rounds_large_orders:
  "map (\<lambda>e. (source e, target e)) (r_edges (restoreFlowFromJson index_stamp wide_doc))
     = [(''node-9007199254740992-0'', ''node-9007199254740994-1'')]"
  by code_simp

section \<open>Compiling a rebuilt graph\<close>

lemma distinct_map_sort_key:
  assumes "distinct (map f xs)"
  shows "distinct (map f (sort_key g xs))"
proof (rule card_distinct)
  have "set (map f (sort_key g xs)) = set (map f xs)" by simp
  moreover from assms have "card (set (map f xs)) = length (map f xs)" by (rule distinct_card)
  ultimately show "card (set (map f (sort_key g xs))) = length (map f (sort_key g xs))" by simp
qed

lemma lookup_distinct_orders:
  assumes "distinct (map step_sequence_order ss)" and "i < length ss"
  shows "sequenceToIdMap stamps ss (step_sequence_order (ss ! i))
           = Some (gen_id (step_sequence_order (ss ! i)) (stamps i))"
proof (rule sequenceToIdMap_last [OF assms(2)], intro allI impI)
  fix k assume "i < k \<and> k < length ss"
  with assms show "step_sequence_order (ss ! k) \<noteq> step_sequence_order (ss ! i)"
    by (auto simp add: distinct_conv_nth)
qed

lemma distinct_ids_of_distinct_orders:
  assumes "distinct (map step_sequence_order (steps json))"
    and "\<forall>s \<in> set (steps json). safe_integer (step_sequence_order s)"
  shows "distinct (map node_id (r_nodes (restoreFlowFromJson stamps json)))"
proof -
  let ?f = "\<lambda>i. gen_id (step_sequence_order (steps json ! i)) (stamps i)"
  have "inj_on ?f (set [0..<length (steps json)])"
  proof (rule inj_onI)
    fix i j
    assume "i \<in> set [0..<length (steps json)]" "j \<in> set [0..<length (steps json)]" "?f i = ?f j"
    then have ij: "i < length (steps json)" "j < length (steps json)"
      and eq: "?f i = ?f j"
      by auto
    from ij assms(2) have "safe_integer (step_sequence_order (steps json ! i))"
      "safe_integer (step_sequence_order (steps json ! j))"
      by simp_all
    with eq have "step_sequence_order (steps json ! i) = step_sequence_order (steps json ! j)"
      by (blast dest: gen_id_inject)
    with ij assms(1) show "i = j" by (auto simp add: distinct_conv_nth)
  qed
  then have "distinct (map ?f [0..<length (steps json)])" by (simp add: distinct_map)
  moreover have "''start'' \<notin> set (map ?f [0..<length (steps json)])"
    using gen_id_not_start by (auto simp add: image_iff) metis
  ultimately show ?thesis by (simp add: restored_nodes start_node_def o_def)
qed

lemma restored_step_nodes:
  "filter (\<lambda>n. \<not> isStartNode (data n)) (r_nodes (restoreFlowFromJson stamps json))
     = map (\<lambda>i. restore_node stamps (steps json ! i) i) [0..<length (steps json)]"
  by (simp add: restored_nodes start_node_def restore_node_def filter_map o_def)

lemma restored_sorted_steps:
  assumes "sorted (map step_sequence_order (steps json))"
  shows "sort_key (\<lambda>n. sequence_order (data n))
           (filter (\<lambda>n. \<not> isStartNode (data n)) (r_nodes (restoreFlowFromJson stamps json)))
         = map (\<lambda>i. restore_node stamps (steps json ! i) i) [0..<length (steps json)]"
proof -
  have "map (\<lambda>n. sequence_order (data n))
          (map (\<lambda>i. restore_node stamps (steps json ! i) i) [0..<length (steps json)])
        = map step_sequence_order (steps json)"
    by (rule nth_equalityI) (simp_all add: restore_node_def)
  with assms show ?thesis
    by (simp only: restored_step_nodes sort_key_id_if_sorted)
qed

lemma compiled_steps:
  "steps (generateFlowJson nodes edges cfg)
     = map (compile_step nodes edges)
           (sort_key (\<lambda>n. sequence_order (data n)) (filter (\<lambda>n. \<not> isStartNode (data n)) nodes))"
  by (simp add: generateFlowJson_def Let_def)

lemma compile_step_order [simp]:
  "step_sequence_order (compile_step nodes edges n) = sequence_order (data n)"
  by (simp add: compile_step_def Let_def)

lemma compiled_orders:
  "map step_sequence_order (steps (generateFlowJson nodes edges cfg))
     = map (\<lambda>n. sequence_order (data n))
           (sort_key (\<lambda>n. sequence_order (data n)) (filter (\<lambda>n. \<not> isStartNode (data n)) nodes))"
  by (simp add: compiled_steps o_def)

lemma compiled_orders_sorted:
  "sorted (map step_sequence_order (steps (generateFlowJson nodes edges cfg)))"
  by (simp only: compiled_orders sorted_sort_key)

lemma compiled_orders_distinct:
  "distinct (map (\<lambda>n. sequence_order (data n)) (filter (\<lambda>n. \<not> isStartNode (data n)) nodes))
   \<Longrightarrow> distinct (map step_sequence_order (steps (generateFlowJson nodes edges cfg)))"
  by (simp only: compiled_orders distinct_map_sort_key)


lemma step_type_not_Nil: "step_type (compile_step nodes edges n) \<noteq> []"
  by (simp add: compile_step_def Let_def split: option.splits)

lemma step_type_SQL_if: "type (data n) = Some SQL \<Longrightarrow> step_type (compile_step nodes edges n) = SQL"
  by (simp add: compile_step_def Let_def)

lemma step_type_LLM_iff: "step_type (compile_step nodes edges n) = LLM \<longleftrightarrow> type (data n) = Some LLM"
  by (auto simp add: compile_step_def Let_def split: option.splits)

lemma compile_step_sel:
  "step_sequence_name (compile_step nodes edges n) = label (data n)"
  "step_type (compile_step nodes edges n)
     = (case type (data n) of None \<Rightarrow> SQL | Some t \<Rightarrow> if t = [] then SQL else t)"
  "step_value (compile_step nodes edges n) = value' (data n)"
  "step_depends_on (compile_step nodes edges n)
     = (if dependsOnOrders nodes edges n \<noteq> [] then Some (DepString (dependsOnOrders nodes edges n))
        else None)"
  "step_max_retry (compile_step nodes edges n)
     = (if truthy_int (max_retry (data n)) then max_retry (data n) else None)"
  "step_append_iteration_column (compile_step nodes edges n)
     = (if type (data n) = Some SQL \<and> truthy_str (append_iteration_column (data n))
        then append_iteration_column (data n) else None)"
  "step_append_time_column (compile_step nodes edges n)
     = (if type (data n) = Some SQL \<and> truthy_str (append_time_column (data n))
        then append_time_column (data n) else None)"
  "step_time_range (compile_step nodes edges n)
     = (if type (data n) = Some SQL \<and> truthy_str (append_time_column (data n))
        then time_range_of (data n) else None)"
  "step_time_grain (compile_step nodes edges n)
     = (if type (data n) = Some SQL \<and> truthy_str (append_time_column (data n))
           \<and> truthy_str (time_grain (data n))
        then time_grain (data n) else None)"
  "step_time_mode (compile_step nodes edges n)
     = (if type (data n) = Some SQL \<and> truthy_str (append_time_column (data n))
           \<and> truthy_str (time_mode (data n))
        then time_mode (data n) else None)"
  "step_reference_date (compile_step nodes edges n)
     = (if type (data n) = Some SQL \<and> truthy_str (reference_date (data n))
        then reference_date (data n) else None)"
  "step_llm_model (compile_step nodes edges n)
     = (if type (data n) = Some LLM \<and> truthy_str (llm_model (data n))
        then llm_model (data n) else None)"
  by (simp_all add: compile_step_def Let_def)

lemma restore_node_sel:
  "label (data (restore_node stamps step i))
     = (if step_sequence_name step \<noteq> [] then step_sequence_name step
        else ''Step '' @ number_toString (step_sequence_order step))"
  "sequence_order (data (restore_node stamps step i)) = step_sequence_order step"
  "type (data (restore_node stamps step i)) = Some (step_type step)"
  "value' (data (restore_node stamps step i)) = step_value step"
  "append_iteration_column (data (restore_node stamps step i)) = step_append_iteration_column step"
  "append_time_column (data (restore_node stamps step i)) = step_append_time_column step"
  "time_amount (data (restore_node stamps step i)) = fst (parse_time_range step)"
  "time_grain (data (restore_node stamps step i)) = snd (parse_time_range step)"
  "time_mode (data (restore_node stamps step i)) = step_time_mode step"
  "reference_date (data (restore_node stamps step i)) = step_reference_date step"
  "llm_model (data (restore_node stamps step i)) = step_llm_model step"
  "max_retry (data (restore_node stamps step i)) = step_max_retry step"
  "isStartNode (data (restore_node stamps step i)) = False"
  by (simp_all add: restore_node_def)

lemma truthy_str_if: "truthy_str (if b \<and> truthy_str v then v else None) = (b \<and> truthy_str v)"
  by (simp add: truthy_str_def)

lemma truthy_int_if: "truthy_int (if truthy_int v then v else None) = truthy_int v"
  by (simp add: truthy_int_def)

lemma recompile_plain_fields:
  fixes n :: Node and nodes nodes' :: "Node list" and edges edges' :: "Edge list"
    and stamps :: "nat \<Rightarrow> string" and i :: nat
  defines "c \<equiv> compile_step nodes edges n"
  defines "c' \<equiv> compile_step nodes' edges' (restore_node stamps (compile_step nodes edges n) i)"
  assumes "label (data n) \<noteq> []"
  shows "step_sequence_order c' = step_sequence_order c"
    and "step_sequence_name c' = step_sequence_name c"
    and "step_type c' = step_type c"
    and "step_value c' = step_value c"
    and "step_max_retry c' = step_max_retry c"
    and "step_append_iteration_column c' = step_append_iteration_column c"
    and "step_append_time_column c' = step_append_time_column c"
    and "step_time_mode c' = step_time_mode c"
    and "step_reference_date c' = step_reference_date c"
    and "step_llm_model c' = step_llm_model c"
proof -
  have t: "step_type c \<noteq> []" by (simp add: c_def step_type_not_Nil)
  have sql: "step_type c = SQL" if "type (data n) = Some SQL"
    using that by (simp add: c_def step_type_SQL_if)
  show "step_sequence_order c' = step_sequence_order c"
    by (simp add: c_def c'_def restore_node_sel)
  show "step_sequence_name c' = step_sequence_name c"
    using assms(3) by (simp add: c_def c'_def restore_node_sel compile_step_sel)
  show "step_type c' = step_type c"
    using t by (simp add: c'_def compile_step_sel(2) [of nodes'] restore_node_sel c_def [symmetric])
  show "step_value c' = step_value c"
    by (simp add: c_def c'_def restore_node_sel compile_step_sel)
  show "step_max_retry c' = step_max_retry c"
    by (simp add: c_def c'_def restore_node_sel compile_step_sel truthy_int_if)
  show "step_append_iteration_column c' = step_append_iteration_column c"
    using sql
    by (simp add: c'_def compile_step_sel(6) [of nodes'] restore_node_sel c_def [symmetric])
       (simp add: c_def compile_step_sel truthy_str_def)
  show "step_append_time_column c' = step_append_time_column c"
    using sql
    by (simp add: c'_def compile_step_sel(7) [of nodes'] restore_node_sel c_def [symmetric])
       (simp add: c_def compile_step_sel truthy_str_def)
  show "step_time_mode c' = step_time_mode c"
    using sql
    by (simp add: c'_def compile_step_sel(10) [of nodes'] restore_node_sel c_def [symmetric])
       (simp add: c_def compile_step_sel truthy_str_def)
  show "step_reference_date c' = step_reference_date c"
    using sql
    by (simp add: c'_def compile_step_sel(11) [of nodes'] restore_node_sel c_def [symmetric])
       (simp add: c_def compile_step_sel truthy_str_def)
  show "step_llm_model c' = step_llm_model c"
    by (simp add: c'_def compile_step_sel(12) [of nodes'] restore_node_sel c_def [symmetric])
       (simp add: c_def compile_step_sel truthy_str_def step_type_LLM_iff [unfolded compile_step_sel])
qed

lemma split_time_range:
  assumes "CHR ''_'' \<notin> set g"
  shows "split_on CHR ''_'' (''last_'' @ number_toString a @ ''_'' @ g @ ''s'')
           = [''last'', number_toString a, g @ ''s'']"
proof -
  have "''last_'' @ number_toString a @ ''_'' @ g @ ''s''
          = ''last'' @ CHR ''_'' # (number_toString a @ CHR ''_'' # (g @ ''s''))"
    by simp
  moreover have "split_on CHR ''_'' (''last'' @ CHR ''_'' # (number_toString a @ CHR ''_'' # (g @ ''s'')))
          = ''last'' # split_on CHR ''_'' (number_toString a @ CHR ''_'' # (g @ ''s''))"
    by (rule split_on_append_sep) simp
  moreover have "split_on CHR ''_'' (number_toString a @ CHR ''_'' # (g @ ''s''))
          = number_toString a # split_on CHR ''_'' (g @ ''s'')"
    by (rule split_on_append_sep) (rule number_toString_no_sep)
  moreover from assms have "split_on CHR ''_'' (g @ ''s'') = [g @ ''s'']"
    by (intro split_on_no_sep) simp
  ultimately show ?thesis by (simp only:)
qed

lemma parse_compiled_time_range:
  assumes "g \<in> set TimeGrain_values" and "safe_integer a"
  shows "parse_time_range
           (step\<lparr>step_time_range := Some (''last_'' @ number_toString a @ ''_'' @ g @ ''s'')\<rparr>)
         = (Some (Num a), Some g)"
proof -
  from assms have "CHR ''_'' \<notin> set g" by (auto simp add: TimeGrain_values_def)
  then have "split_on CHR ''_'' (''last_'' @ number_toString a @ ''_'' @ g @ ''s'')
           = [''last'', number_toString a, g @ ''s'']"
    by (rule split_time_range)
  moreover have "endsWith (g @ ''s'') ''s''" by (simp add: endsWith_def)
  ultimately show ?thesis
    using assms by (simp add: parse_time_range_def Let_def parseInt_number_toString)
qed

lemma parse_compiled_amount:
  assumes "safe_integer a"
  shows "fst (parse_time_range
           (step\<lparr>step_time_range := Some (''last_'' @ number_toString a @ ''_'' @ g @ ''s'')\<rparr>))
         = Some (Num a)"
proof -
  have "''last_'' @ number_toString a @ ''_'' @ g @ ''s''
          = ''last'' @ CHR ''_'' # (number_toString a @ CHR ''_'' # (g @ ''s''))"
    by simp
  moreover have "split_on CHR ''_'' (''last'' @ CHR ''_'' # (number_toString a @ CHR ''_'' # (g @ ''s'')))
          = ''last'' # split_on CHR ''_'' (number_toString a @ CHR ''_'' # (g @ ''s''))"
    by (rule split_on_append_sep) simp
  moreover have "split_on CHR ''_'' (number_toString a @ CHR ''_'' # (g @ ''s''))
          = number_toString a # split_on CHR ''_'' (g @ ''s'')"
    by (rule split_on_append_sep) (rule number_toString_no_sep)
  ultimately have s: "split_on CHR ''_'' (''last_'' @ number_toString a @ ''_'' @ g @ ''s'')
          = ''last'' # number_toString a # split_on CHR ''_'' (g @ ''s'')"
    by (simp only:)
  obtain p ps where "split_on CHR ''_'' (g @ ''s'') = p # ps"
    using split_on_not_Nil [of "CHR ''_''" "g @ ''s''"] by (cases "split_on CHR ''_'' (g @ ''s'')") auto
  with s assms show ?thesis
    by (simp add: parse_time_range_def Let_def parseInt_number_toString)
qed

lemma recompile_time_fields:
  fixes n :: Node and nodes nodes' :: "Node list" and edges edges' :: "Edge list"
    and stamps :: "nat \<Rightarrow> string" and i :: nat
  defines "c \<equiv> compile_step nodes edges n"
  defines "c' \<equiv> compile_step nodes' edges' (restore_node stamps (compile_step nodes edges n) i)"
  assumes "known_grain (data n)" and "safe_numbers (data n)"
  shows "step_time_range c' = step_time_range c \<and> step_time_grain c' = step_time_grain c"
proof -
  have tr': "step_time_range c'
      = (if step_type c = SQL \<and> truthy_str (step_append_time_column c)
         then time_range_of (data (restore_node stamps c i)) else None)"
    by (simp add: c'_def compile_step_sel(8) [of nodes'] restore_node_sel c_def [symmetric])
  have tg': "step_time_grain c'
      = (if step_type c = SQL \<and> truthy_str (step_append_time_column c)
            \<and> truthy_str (snd (parse_time_range c))
         then snd (parse_time_range c) else None)"
    by (simp add: c'_def compile_step_sel(9) [of nodes'] restore_node_sel c_def [symmetric])
  have tro: "time_range_of (data (restore_node stamps c i))
      = (case (fst (parse_time_range c), snd (parse_time_range c)) of
           (Some a, Some g) \<Rightarrow>
             if truthy_num (Some a) \<and> g \<noteq> [] then Some (''last_'' @ ToString a @ ''_'' @ g @ ''s'')
             else None
         | _ \<Rightarrow> None)"
    by (simp add: time_range_of_def restore_node_sel)
  show ?thesis
  proof (cases "type (data n) = Some SQL \<and> truthy_str (append_time_column (data n))")
    case False
    then have "step_append_time_column c = None" "step_time_range c = None" "step_time_grain c = None"
      by (auto simp add: c_def compile_step_sel)
    then show ?thesis by (simp add: tr' tg' truthy_str_def)
  next
    case timed: True
    then have ty: "step_type c = SQL" "truthy_str (step_append_time_column c)"
      by (simp_all add: c_def compile_step_sel)
    show ?thesis
    proof (cases "time_range_of (data n)")
      case None
      with timed have r: "step_time_range c = None" by (simp add: c_def compile_step_sel)
      then have p: "parse_time_range c
          = (None, if truthy_str (step_time_grain c) then step_time_grain c else None)"
        by (simp add: parse_time_range_def)
      have g: "(if truthy_str (step_time_grain c) then step_time_grain c else None) = step_time_grain c"
        by (simp add: c_def compile_step_sel truthy_str_def)
      from p g have "fst (parse_time_range c) = None" "snd (parse_time_range c) = step_time_grain c"
        by simp_all
      moreover from g have "\<not> truthy_str (step_time_grain c) \<Longrightarrow> step_time_grain c = None"
        by (simp split: if_splits)
      ultimately show ?thesis using ty r by (auto simp add: tr' tg' tro)
    next
      case (Some tr)
      then obtain x g where xg: "time_amount (data n) = Some x" "truthy_num (Some x)"
          "time_grain (data n) = Some g" "g \<noteq> []"
          "tr = ''last_'' @ ToString x @ ''_'' @ g @ ''s''"
        by (auto simp add: time_range_of_def split: option.splits if_splits)
      with assms(4) obtain a where a: "x = Num a" "a \<noteq> 0" "safe_integer a"
        by (cases x) (auto simp add: safe_numbers_def truthy_num_def)
      with xg have ag: "time_amount (data n) = Some (Num a)" "a \<noteq> 0"
          "time_grain (data n) = Some g" "g \<noteq> []"
          "tr = ''last_'' @ number_toString a @ ''_'' @ g @ ''s''"
        by (simp_all add: ToString_def)
      from timed assms(3) ag have g: "g \<in> set TimeGrain_values"
        by (auto simp add: known_grain_def truthy_str_def truthy_num_def)
      from timed Some have r: "step_time_range c = Some tr" by (simp add: c_def compile_step_sel)
      then have "c = c\<lparr>step_time_range := Some tr\<rparr>" by simp
      then have "parse_time_range c = parse_time_range (c\<lparr>step_time_range := Some tr\<rparr>)"
        by simp
      with g a(3) ag(5) have p: "parse_time_range c = (Some (Num a), Some g)"
        by (simp only: parse_compiled_time_range)
      from timed ag have sg: "step_time_grain c = Some g"
        by (simp add: c_def compile_step_sel truthy_str_def)
      from ty r sg p ag show ?thesis
        by (simp add: tr' tg' tro truthy_str_def truthy_num_def ToString_def)
    qed
  qed
qed

lemma restored_safe_numbers:
  assumes "safe_numbers (data n)"
  shows "safe_numbers (data (restore_node stamps (compile_step nodes edges n) i))"
proof -
  let ?c = "compile_step nodes edges n"
  from assms have o: "safe_integer (sequence_order (data n))" by (simp add: safe_numbers_def)
  have "case fst (parse_time_range ?c) of
          Some (Num a) \<Rightarrow> safe_integer a
        | Some PosInfinity \<Rightarrow> False
        | Some NegInfinity \<Rightarrow> False
        | _ \<Rightarrow> True"
  proof (cases "step_time_range ?c")
    case None
    then have "fst (parse_time_range ?c) = None" by (simp add: parse_time_range_def)
    then show ?thesis by simp
  next
    case (Some tr)
    then have "time_range_of (data n) = Some tr"
      by (simp add: compile_step_sel split: if_splits)
    then obtain x g where xg: "time_amount (data n) = Some x" "truthy_num (Some x)"
        "tr = ''last_'' @ ToString x @ ''_'' @ g @ ''s''"
      by (auto simp add: time_range_of_def split: option.splits if_splits)
    with assms obtain a where a: "x = Num a" "safe_integer a"
      by (cases x) (auto simp add: safe_numbers_def truthy_num_def)
    with xg have tr: "tr = ''last_'' @ number_toString a @ ''_'' @ g @ ''s''"
      by (simp add: ToString_def)
    from Some have "?c = ?c\<lparr>step_time_range := Some tr\<rparr>" by simp
    then have "fst (parse_time_range ?c) = fst (parse_time_range (?c\<lparr>step_time_range := Some tr\<rparr>))"
      by simp
    with a(2) tr have "fst (parse_time_range ?c) = Some (Num a)"
      by (simp only: parse_compiled_amount)
    with a(2) show ?thesis by simp
  qed
  with o show ?thesis by (simp add: safe_numbers_def restore_node_sel)
qed

lemma compile_step_depends_on:
  assumes "distinct (map (\<lambda>n. sequence_order (data n)) (filter (\<lambda>n. \<not> isStartNode (data n)) nodes))"
  shows "step_depends_on (compile_step nodes edges node) =
          (if direct_predecessors nodes edges node = {} then None
           else Some (DepString (join_with '','' (map number_toString
                  (sorted_list_of_set (direct_predecessors nodes edges node))))))"
proof -
  let ?P = "direct_predecessors nodes edges node"
  have "join_with '','' (map number_toString (sorted_list_of_set ?P)) = [] \<longleftrightarrow> ?P = {}"
    using finite_direct_predecessors [of nodes edges node]
    by (simp add: join_with_Nil_iff number_toString_not_Nil)
  then show ?thesis
    by (simp add: compile_step_sel dependsOnOrders_sorted_set [OF assms])
qed

lemma incoming_edge_origin:
  assumes d: "distinct (map step_sequence_order (steps json))"
    and sf: "\<forall>s \<in> set (steps json). safe_integer (step_sequence_order s)"
    and i: "i < length (steps json)"
    and e: "e \<in> set (r_edges (restoreFlowFromJson stamps json))"
    and t: "target e = gen_id (step_sequence_order (steps json ! i)) (stamps i)"
  shows "(e \<in> set (iteration_edges (sequenceToIdMap stamps (steps json)) json)
            \<and> source e = ''start'')
     \<or> e \<in> set (step_edges (sequenceToIdMap stamps (steps json)) json (steps json ! i))"
proof -
  let ?m = "sequenceToIdMap stamps (steps json)"
  from d sf have di: "distinct (map node_id (r_nodes (restoreFlowFromJson stamps json)))"
    by (rule distinct_ids_of_distinct_orders)
  from e have "e \<in> set (iteration_edges ?m json)
      \<or> (\<exists>step \<in> set (steps json). e \<in> set (step_edges ?m json step))"
    by (auto simp add: restoreFlowFromJson_def Let_def)
  then show ?thesis
  proof
    assume "e \<in> set (iteration_edges ?m json)"
    then show ?thesis by (simp add: iteration_edges_endpoints)
  next
    assume "\<exists>step \<in> set (steps json). e \<in> set (step_edges ?m json step)"
    then obtain step where s: "step \<in> set (steps json)" "e \<in> set (step_edges ?m json step)"
      by blast
    from s(2) have "?m (step_sequence_order step) = Some (target e)"
      by (simp add: step_edges_endpoints)
    with t di i have o: "step_sequence_order step = step_sequence_order (steps json ! i)"
      by (auto dest: lookup_only_last)
    from s(1) obtain k where k: "k < length (steps json)" "steps json ! k = step"
      by (auto simp add: in_set_conv_nth)
    with o d i have "k = i" by (auto simp add: distinct_conv_nth)
    with k s(2) show ?thesis by simp
  qed
qed

lemma dependency_edge_iff:
  assumes "t \<noteq> []"
  shows "e \<in> set (case lookup_number m x of
                     Some sourceId \<Rightarrow>
                       if sourceId \<noteq> [] \<and> t \<noteq> [] then
                         [\<lparr>edge_id = ''edge-'' @ sourceId @ ''-'' @ t, source = sourceId, target = t\<rparr>]
                       else []
                   | None \<Rightarrow> [])
     \<longleftrightarrow> (\<exists>sid. lookup_number m x = Some sid \<and> sid \<noteq> []
            \<and> e = \<lparr>edge_id = ''edge-'' @ sid @ ''-'' @ t, source = sid, target = t\<rparr>)"
proof (cases "lookup_number m x")
  case None
  then show ?thesis by simp
next
  case (Some sid)
  with assms show ?thesis by (cases "sid = []") simp_all
qed

lemma dependency_edges:
  assumes "m (step_sequence_order step) = Some t" and "t \<noteq> []"
    and "step_depends_on step = Some (DepString (join_with '','' (map number_toString os)))"
    and "os \<noteq> []" and "\<forall>ord \<in> set os. safe_integer ord"
  shows "e \<in> set (step_edges m json step)
     \<longleftrightarrow> (\<exists>sid ord. ord \<in> set os \<and> m ord = Some sid \<and> sid \<noteq> []
            \<and> e = \<lparr>edge_id = ''edge-'' @ sid @ ''-'' @ t, source = sid, target = t\<rparr>)"
proof -
  from assms(4) have ne: "join_with '','' (map number_toString os) \<noteq> []"
    by (simp add: join_with_Nil_iff number_toString_not_Nil)
  have src: "dep_sources (DepString (join_with '','' (map number_toString os))) = map Num os"
    using assms(4,5) by (rule dep_sources_compiled)
  from assms(3) ne have tr: "truthy_dep (step_depends_on step)" by (simp add: truthy_dep_def)
  let ?f = "\<lambda>sourceSeq. case lookup_number m sourceSeq of
                       Some sourceId \<Rightarrow>
                         if sourceId \<noteq> [] \<and> t \<noteq> [] then
                           [\<lparr>edge_id = ''edge-'' @ sourceId @ ''-'' @ t,
                             source = sourceId, target = t\<rparr>]
                         else []
                     | None \<Rightarrow> []"
  have "step_edges m json step = concat (map ?f (map Num os))"
    unfolding step_edges_def using assms(1,3) tr src by simp
  then have "e \<in> set (step_edges m json step) \<longleftrightarrow> (\<exists>ord \<in> set os. e \<in> set (?f (Num ord)))"
    by simp
  also have "\<dots> \<longleftrightarrow> (\<exists>ord \<in> set os. \<exists>sid. lookup_number m (Num ord) = Some sid \<and> sid \<noteq> []
            \<and> e = \<lparr>edge_id = ''edge-'' @ sid @ ''-'' @ t, source = sid, target = t\<rparr>)"
    by (simp only: dependency_edge_iff [OF assms(2)])
  also have "\<dots> \<longleftrightarrow> (\<exists>sid ord. ord \<in> set os \<and> m ord = Some sid \<and> sid \<noteq> []
            \<and> e = \<lparr>edge_id = ''edge-'' @ sid @ ''-'' @ t, source = sid, target = t\<rparr>)"
    by (simp add: lookup_number_def) blast
  finally show ?thesis .
qed

lemma rebuilt_direct_predecessors:
  fixes nodes :: "Node list" and edges :: "Edge list" and cfg :: GlobalConfig
    and stamps :: "nat \<Rightarrow> string"
  defines "S \<equiv> sort_key (\<lambda>n. sequence_order (data n)) (filter (\<lambda>n. \<not> isStartNode (data n)) nodes)"
  defines "D \<equiv> generateFlowJson nodes edges cfg"
  defines "R \<equiv> restoreFlowFromJson stamps (generateFlowJson nodes edges cfg)"
  assumes H1: "distinct (map (\<lambda>n. sequence_order (data n)) (filter (\<lambda>n. \<not> isStartNode (data n)) nodes))"
    and H0: "\<forall>n \<in> set nodes. \<not> isStartNode (data n) \<longrightarrow> safe_integer (sequence_order (data n))"
    and H5: "\<forall>n \<in> set nodes. \<not> isStartNode (data n) \<and> direct_predecessors nodes edges n = {}
                \<and> sequence_order (data n) \<noteq> 1 \<longrightarrow>
              (\<forall>p \<in> set nodes. \<not> isStartNode (data p) \<longrightarrow>
                 sequence_order (data p) \<noteq> sequence_order (data n) - 1)"
    and i: "i < length S"
  shows "direct_predecessors (r_nodes R) (r_edges R) (r_nodes R ! Suc i)
           = direct_predecessors nodes edges (S ! i)"
proof -
  let ?cs = "compile_step nodes edges"
  let ?m = "sequenceToIdMap stamps (steps D)"
  let ?idf = "\<lambda>j. gen_id (sequence_order (data (S ! j))) (stamps j)"
  let ?P = "direct_predecessors nodes edges (S ! i)"
  have ss: "steps D = map ?cs S" by (simp add: D_def S_def compiled_steps)
  have len: "length (steps D) = length S" by (simp add: ss)
  have nth: "steps D ! j = ?cs (S ! j)" if "j < length S" for j using that by (simp add: ss)
  have ord: "step_sequence_order (steps D ! j) = sequence_order (data (S ! j))" if "j < length S" for j
    using that by (simp add: nth)
  have dss: "distinct (map step_sequence_order (steps D))"
    unfolding D_def using H1 by (rule compiled_orders_distinct)
  have setS: "set S = {n \<in> set nodes. \<not> isStartNode (data n)}" by (simp add: S_def)
  have safeS: "safe_integer (sequence_order (data (S ! j)))" if "j < length S" for j
    using that H0 setS nth_mem [of j S] by auto
  have dsafe: "\<forall>s \<in> set (steps D). safe_integer (step_sequence_order s)"
    using H0 by (auto simp add: ss setS)
  have Psafe: "\<forall>ord \<in> ?P. safe_integer ord"
    using H0 by (auto simp add: direct_predecessors_def)
  have pe: "round_to_double (sequence_order (data (S ! i)) - 1) = sequence_order (data (S ! i)) - 1"
    using i by (intro previous_order_exact safeS)
  have mj: "?m (sequence_order (data (S ! j))) = Some (?idf j)" if "j < length S" for j
    using lookup_distinct_orders [OF dss, of j stamps] that by (simp add: len ord)
  have node: "r_nodes R ! Suc j = restore_node stamps (steps D ! j) j" if "j < length S" for j
    using that by (simp add: R_def D_def [symmetric] restored_node_nth len)
  have nid: "node_id (r_nodes R ! Suc j) = ?idf j" if "j < length S" for j
    using that by (simp add: node ord)
  have Si: "S ! i \<in> set nodes" "\<not> isStartNode (data (S ! i))"
    using i setS nth_mem [of i S] by auto
  have dep: "step_depends_on (steps D ! i) =
          (if ?P = {} then None
           else Some (DepString (join_with '','' (map number_toString (sorted_list_of_set ?P)))))"
    using i by (simp add: nth compile_step_depends_on [OF H1])
  have fin: "finite ?P" by (rule finite_direct_predecessors)
  have in_edges: "set (step_edges ?m D (steps D ! i)) \<subseteq> set (r_edges R)"
    unfolding R_def D_def [symmetric] using i by (intro step_edges_subset) (simp add: len)
  have dep_edges: "e \<in> set (step_edges ?m D (steps D ! i))
     \<longleftrightarrow> (\<exists>sid ord. ord \<in> ?P \<and> ?m ord = Some sid \<and> sid \<noteq> []
            \<and> e = \<lparr>edge_id = ''edge-'' @ sid @ ''-'' @ ?idf i, source = sid, target = ?idf i\<rparr>)"
    if ne: "?P \<noteq> {}" for e
  proof -
    from fin ne have "sorted_list_of_set ?P \<noteq> []" by simp
    moreover from ne dep have "step_depends_on (steps D ! i)
        = Some (DepString (join_with '','' (map number_toString (sorted_list_of_set ?P))))"
      by simp
    moreover have "?m (step_sequence_order (steps D ! i)) = Some (?idf i)"
      using i by (simp add: ord mj)
    ultimately have "e \<in> set (step_edges ?m D (steps D ! i))
     \<longleftrightarrow> (\<exists>sid ord. ord \<in> set (sorted_list_of_set ?P) \<and> ?m ord = Some sid \<and> sid \<noteq> []
            \<and> e = \<lparr>edge_id = ''edge-'' @ sid @ ''-'' @ ?idf i, source = sid, target = ?idf i\<rparr>)"
      using gen_id_not_Nil by (intro dependency_edges) (simp_all add: Psafe fin)
    with fin show ?thesis by simp
  qed
  show ?thesis
  proof (rule set_eqI, rule iffI)
    fix v
    assume "v \<in> direct_predecessors (r_nodes R) (r_edges R) (r_nodes R ! Suc i)"
    then obtain x e where x: "x \<in> set (r_nodes R)" "\<not> isStartNode (data x)"
        "v = sequence_order (data x)"
      and e: "e \<in> set (r_edges R)" "source e = node_id x" "source e \<noteq> ''start''"
        "target e = ?idf i"
      using i by (auto simp add: direct_predecessors_def nid)
    from x(1,2) have "x \<in> set (filter (\<lambda>n. \<not> isStartNode (data n)) (r_nodes R))" by simp
    then obtain j where j: "j < length S" "x = restore_node stamps (steps D ! j) j"
      unfolding R_def D_def [symmetric] restored_step_nodes by (auto simp add: len)
    then have xid: "node_id x = ?idf j" and xo: "sequence_order (data x) = sequence_order (data (S ! j))"
      by (simp_all add: ord restore_node_sel)
    from e(1,4) i have "(e \<in> set (iteration_edges ?m D) \<and> source e = ''start'')
        \<or> e \<in> set (step_edges ?m D (steps D ! i))"
      unfolding R_def D_def [symmetric]
      by (intro incoming_edge_origin [OF dss dsafe]) (simp_all add: len ord)
    with e(3) have es: "e \<in> set (step_edges ?m D (steps D ! i))" by blast
    show "v \<in> ?P"
    proof (cases "?P = {}")
      case True
      with dep have nd: "\<not> truthy_dep (step_depends_on (steps D ! i))" by (simp add: truthy_dep_def)
      have mi: "?m (step_sequence_order (steps D ! i)) = Some (?idf i)" using i by (simp add: ord mj)
      note fb = fallback_edges [where m = "?m" and step = "steps D ! i" and json = D
          and t = "?idf i", OF nd mi]
      show ?thesis
      proof (cases "sequence_order (data (S ! i)) = 1")
        case one: True
        with es fb e(3) i show ?thesis by (auto simp add: ord split: if_splits)
      next
        case False
        with H5 Si True have "\<forall>p \<in> set nodes. \<not> isStartNode (data p) \<longrightarrow>
                 sequence_order (data p) \<noteq> sequence_order (data (S ! i)) - 1"
          by blast
        then have "sequence_order (data (S ! i)) - 1 \<notin> step_sequence_order ` set (steps D)"
          by (auto simp add: ss setS)
        then have "?m (sequence_order (data (S ! i)) - 1) = None"
          by (simp add: sequenceToIdMap_None)
        with es fb False i show ?thesis by (simp add: ord pe)
      qed
    next
      case False
      from es dep_edges [OF False] obtain sid ord' where o: "ord' \<in> ?P" "?m ord' = Some sid"
          "source e = sid"
        by auto
      from o(2) obtain k where "k < length (steps D)" "sid = gen_id ord' (stamps k)"
        by (auto dest: lookup_Some_index)
      with o(3) e(2) xid have "gen_id ord' (stamps k) = ?idf j" by simp
      moreover from o(1) Psafe have "safe_integer ord'" by blast
      moreover note safeS [OF j(1)]
      ultimately have "ord' = sequence_order (data (S ! j))" by (blast dest: gen_id_inject)
      with o(1) x(3) xo show ?thesis by simp
    qed
  next
    fix v
    assume v: "v \<in> ?P"
    then have ne: "?P \<noteq> {}" by auto
    from v obtain y where "y \<in> set nodes" "\<not> isStartNode (data y)" "v = sequence_order (data y)"
      by (auto simp add: direct_predecessors_def)
    then have "y \<in> set S" by (simp add: setS)
    then obtain j where j: "j < length S" "S ! j = y" by (auto simp add: in_set_conv_nth)
    with \<open>v = sequence_order (data y)\<close> have vj: "v = sequence_order (data (S ! j))" by simp
    let ?e = "\<lparr>edge_id = ''edge-'' @ ?idf j @ ''-'' @ ?idf i, source = ?idf j, target = ?idf i\<rparr>"
    from v vj mj [OF j(1)] have "?e \<in> set (step_edges ?m D (steps D ! i))"
      unfolding dep_edges [OF ne] using gen_id_not_Nil by blast
    with in_edges have "?e \<in> set (r_edges R)" by blast
    moreover have "r_nodes R ! Suc j \<in> set (r_nodes R)"
      using j(1) by (intro nth_mem) (simp add: R_def D_def [symmetric] restored_nodes len)
    moreover have "\<not> isStartNode (data (r_nodes R ! Suc j))"
      using j(1) by (simp add: node restore_node_sel)
    moreover have "sequence_order (data (r_nodes R ! Suc j)) = v"
      using j(1) by (simp add: node restore_node_sel ord vj)
    moreover have "source ?e = node_id (r_nodes R ! Suc j)" using j(1) by (simp add: nid)
    moreover have "source ?e \<noteq> ''start''" by (simp add: gen_id_not_start)
    moreover have "target ?e = node_id (r_nodes R ! Suc i)" using i by (simp add: nid)
    ultimately show "v \<in> direct_predecessors (r_nodes R) (r_edges R) (r_nodes R ! Suc i)"
      unfolding direct_predecessors_def by blast
  qed
qed

lemma compiled_iterable_steps:
  "cfg_iterateFlow cfg \<Longrightarrow>
   iterable_steps (generateFlowJson nodes edges cfg)
     = Some (map (\<lambda>n. sequence_order (data n))
               (filter (\<lambda>n. node_id n \<in> set (map target (filter (\<lambda>e. source e = ''start'') edges)))
                  (sort_key (\<lambda>n. sequence_order (data n))
                     (filter (\<lambda>n. \<not> isStartNode (data n)) nodes))))"
  by (simp add: generateFlowJson_def Let_def)

lemma rebuilt_start_targets:
  fixes nodes :: "Node list" and edges :: "Edge list" and cfg :: GlobalConfig
    and stamps :: "nat \<Rightarrow> string"
  defines "S \<equiv> sort_key (\<lambda>n. sequence_order (data n)) (filter (\<lambda>n. \<not> isStartNode (data n)) nodes)"
  defines "D \<equiv> generateFlowJson nodes edges cfg"
  defines "R \<equiv> restoreFlowFromJson stamps (generateFlowJson nodes edges cfg)"
  assumes H1: "distinct (map (\<lambda>n. sequence_order (data n)) (filter (\<lambda>n. \<not> isStartNode (data n)) nodes))"
    and H0: "\<forall>n \<in> set nodes. \<not> isStartNode (data n) \<longrightarrow> safe_integer (sequence_order (data n))"
    and H5: "\<forall>n \<in> set nodes. \<not> isStartNode (data n) \<and> direct_predecessors nodes edges n = {}
                \<and> sequence_order (data n) = 1 \<longrightarrow>
              (\<exists>e \<in> set edges. source e = ''start'' \<and> target e = node_id n)"
    and it: "cfg_iterateFlow cfg"
    and i: "i < length S"
  shows "node_id (r_nodes R ! Suc i) \<in> set (map target (filter (\<lambda>e. source e = ''start'') (r_edges R)))
     \<longleftrightarrow> node_id (S ! i) \<in> set (map target (filter (\<lambda>e. source e = ''start'') edges))"
proof -
  let ?cs = "compile_step nodes edges"
  let ?m = "sequenceToIdMap stamps (steps D)"
  let ?idf = "\<lambda>j. gen_id (sequence_order (data (S ! j))) (stamps j)"
  let ?P = "direct_predecessors nodes edges (S ! i)"
  let ?T0 = "set (map target (filter (\<lambda>e. source e = ''start'') edges))"
  let ?its = "map (\<lambda>n. sequence_order (data n)) (filter (\<lambda>n. node_id n \<in> ?T0) S)"
  have ss: "steps D = map ?cs S" by (simp add: D_def S_def compiled_steps)
  have len: "length (steps D) = length S" by (simp add: ss)
  have nth: "steps D ! j = ?cs (S ! j)" if "j < length S" for j using that by (simp add: ss)
  have ord: "step_sequence_order (steps D ! j) = sequence_order (data (S ! j))" if "j < length S" for j
    using that by (simp add: nth)
  have dss: "distinct (map step_sequence_order (steps D))"
    unfolding D_def using H1 by (rule compiled_orders_distinct)
  have dS: "distinct (map (\<lambda>n. sequence_order (data n)) S)"
    unfolding S_def using H1 by (rule distinct_map_sort_key)
  have setS: "set S = {n \<in> set nodes. \<not> isStartNode (data n)}" by (simp add: S_def)
  have safeS: "safe_integer (sequence_order (data (S ! j)))" if "j < length S" for j
    using that H0 setS nth_mem [of j S] by auto
  have dsafe: "\<forall>s \<in> set (steps D). safe_integer (step_sequence_order s)"
    using H0 by (auto simp add: ss setS)
  have Psafe: "\<forall>ord \<in> ?P. safe_integer ord"
    using H0 by (auto simp add: direct_predecessors_def)
  have pe: "round_to_double (sequence_order (data (S ! i)) - 1) = sequence_order (data (S ! i)) - 1"
    using i by (intro previous_order_exact safeS)
  have mj: "?m (sequence_order (data (S ! j))) = Some (?idf j)" if "j < length S" for j
    using lookup_distinct_orders [OF dss, of j stamps] that by (simp add: len ord)
  have nid: "node_id (r_nodes R ! Suc j) = ?idf j" if "j < length S" for j
    using that by (simp add: R_def D_def [symmetric] restored_node_nth len ord)
  have Si: "S ! i \<in> set nodes" "\<not> isStartNode (data (S ! i))"
    using i setS nth_mem [of i S] by auto
  have itf: "iterate_flow D" using it by (simp add: D_def generateFlowJson_def Let_def)
  have its: "iterable_steps D = Some ?its"
    using it by (simp add: D_def S_def compiled_iterable_steps)
  have in_its: "sequence_order (data (S ! i)) \<in> set ?its \<longleftrightarrow> node_id (S ! i) \<in> ?T0"
  proof
    assume "sequence_order (data (S ! i)) \<in> set ?its"
    then obtain n where n: "n \<in> set S" "node_id n \<in> ?T0"
        "sequence_order (data n) = sequence_order (data (S ! i))"
      by auto
    from n(1) obtain k where k: "k < length S" "S ! k = n" by (auto simp add: in_set_conv_nth)
    with n(3) dS i have "k = i" by (auto simp add: distinct_conv_nth)
    with k n(2) show "node_id (S ! i) \<in> ?T0" by simp
  next
    assume "node_id (S ! i) \<in> ?T0"
    with i show "sequence_order (data (S ! i)) \<in> set ?its" by (auto intro!: image_eqI [of _ _ "S ! i"])
  qed
  have dep: "step_depends_on (steps D ! i) =
          (if ?P = {} then None
           else Some (DepString (join_with '','' (map number_toString (sorted_list_of_set ?P)))))"
    using i by (simp add: nth compile_step_depends_on [OF H1])
  have fin: "finite ?P" by (rule finite_direct_predecessors)
  have mi: "?m (step_sequence_order (steps D ! i)) = Some (?idf i)" using i by (simp add: ord mj)
  show ?thesis
  proof
    assume "node_id (r_nodes R ! Suc i) \<in> set (map target (filter (\<lambda>e. source e = ''start'') (r_edges R)))"
    then obtain e where e: "e \<in> set (r_edges R)" "source e = ''start''" "target e = ?idf i"
      using i by (auto simp add: nid)
    from e(1,3) i have "(e \<in> set (iteration_edges ?m D) \<and> source e = ''start'')
        \<or> e \<in> set (step_edges ?m D (steps D ! i))"
      unfolding R_def D_def [symmetric]
      by (intro incoming_edge_origin [OF dss dsafe]) (simp_all add: len ord)
    then show "node_id (S ! i) \<in> ?T0"
    proof
      assume "e \<in> set (iteration_edges ?m D) \<and> source e = ''start''"
      then obtain its' s where s: "iterable_steps D = Some its'" "s \<in> set its'"
          "?m s = Some (target e)"
        by (blast dest: iteration_edges_listed)
      from s(3) obtain k where k: "k < length (steps D)" "step_sequence_order (steps D ! k) = s"
          "target e = gen_id s (stamps k)"
        by (auto dest: lookup_Some_index)
      from k(1,2) dsafe have "safe_integer s" by auto
      moreover from k(3) e(3) have "gen_id s (stamps k) = ?idf i" by simp
      moreover note safeS [OF i]
      ultimately have "s = sequence_order (data (S ! i))" by (blast dest: gen_id_inject)
      with s(1,2) its in_its show ?thesis by simp
    next
      assume es: "e \<in> set (step_edges ?m D (steps D ! i))"
      show ?thesis
      proof (cases "?P = {}")
        case True
        with dep have nd: "\<not> truthy_dep (step_depends_on (steps D ! i))" by (simp add: truthy_dep_def)
        note fb = fallback_edges [where m = "?m" and step = "steps D ! i" and json = D
          and t = "?idf i", OF nd mi]
        show ?thesis
        proof (cases "sequence_order (data (S ! i)) = 1")
          case one: True
          with H5 Si True obtain e' where "e' \<in> set edges" "source e' = ''start''"
              "target e' = node_id (S ! i)"
            by blast
          then show ?thesis by (auto intro!: image_eqI [of _ _ e'])
        next
          case False
          with es fb i obtain sid where "?m (sequence_order (data (S ! i)) - 1) = Some sid"
              "source e = sid"
            by (cases "?m (sequence_order (data (S ! i)) - 1)")
               (auto simp add: ord pe set_if split: if_splits)
          then have "source e \<noteq> ''start''"
            using gen_id_not_start by (auto dest: lookup_Some_index)
          with e(2) show ?thesis by simp
        qed
      next
        case False
        from fin False have "sorted_list_of_set ?P \<noteq> []" by simp
        moreover from False dep have "step_depends_on (steps D ! i)
            = Some (DepString (join_with '','' (map number_toString (sorted_list_of_set ?P))))"
          by simp
        ultimately have "e \<in> set (step_edges ?m D (steps D ! i))
           \<longleftrightarrow> (\<exists>sid ord. ord \<in> set (sorted_list_of_set ?P) \<and> ?m ord = Some sid \<and> sid \<noteq> []
              \<and> e = \<lparr>edge_id = ''edge-'' @ sid @ ''-'' @ ?idf i, source = sid, target = ?idf i\<rparr>)"
          using mi gen_id_not_Nil by (intro dependency_edges) (simp_all add: Psafe fin)
        with es obtain sid ord' where "?m ord' = Some sid" "source e = sid" by auto
        then have "source e \<noteq> ''start''"
          using gen_id_not_start by (auto dest: lookup_Some_index)
        with e(2) show ?thesis by simp
      qed
    qed
  next
    assume "node_id (S ! i) \<in> ?T0"
    then have "sequence_order (data (S ! i)) \<in> set ?its" by (simp only: in_its)
    with itf its mj [OF i] gen_id_not_Nil
    have "\<lparr>edge_id = ''edge-start-'' @ ?idf i, source = ''start'', target = ?idf i\<rparr>
           \<in> set (iteration_edges ?m D)"
      by (intro iteration_edge_present) auto
    then have "\<lparr>edge_id = ''edge-start-'' @ ?idf i, source = ''start'', target = ?idf i\<rparr>
           \<in> set (r_edges R)"
      unfolding R_def D_def [symmetric] using iteration_edges_subset by blast
    then show "node_id (r_nodes R ! Suc i) \<in> set (map target (filter (\<lambda>e. source e = ''start'') (r_edges R)))"
      using i by (auto simp add: nid intro!: image_eqI
            [of _ _ "\<lparr>edge_id = ''edge-start-'' @ ?idf i, source = ''start'', target = ?idf i\<rparr>"])
  qed
qed

lemma parsed_grain_known:
  assumes "truthy_num (fst (parse_time_range step))" and "snd (parse_time_range step) = Some g"
  shows "g \<in> set TimeGrain_values"
proof (cases "step_time_range step")
  case None
  with assms(1) show ?thesis by (simp add: parse_time_range_def truthy_num_def)
next
  case (Some tr)
  show ?thesis
  proof (cases "tr \<noteq> [] \<and> 3 \<le> length (split_on CHR ''_'' tr)")
    case True
    with Some assms(2) show ?thesis
      by (simp add: parse_time_range_def Let_def split: if_splits)
  next
    case False
    with Some assms(1) show ?thesis
      by (auto simp add: parse_time_range_def Let_def truthy_num_def split: if_splits)
  qed
qed

lemma restored_known_grain: "known_grain (data (restore_node stamps step i))"
  unfolding known_grain_def restore_node_sel
proof (intro impI, elim conjE)
  assume a: "truthy_num (fst (parse_time_range step))"
    and g: "truthy_str (snd (parse_time_range step))"
  from g obtain v where v: "snd (parse_time_range step) = Some v"
    by (cases "snd (parse_time_range step)") (simp_all add: truthy_str_def)
  with a have "v \<in> set TimeGrain_values" by (rule parsed_grain_known)
  with v show "\<exists>g \<in> set TimeGrain_values. snd (parse_time_range step) = Some g" by simp
qed

lemma restored_label: "label (data (restore_node stamps step i)) \<noteq> []"
  by (simp add: restore_node_sel)

lemma restored_flow_name: "r_flowName (restoreFlowFromJson stamps json) \<noteq> []"
  by (simp add: restoreFlowFromJson_def Let_def)

lemma rebuilt_predecessors_lower:
  fixes nodes :: "Node list" and edges :: "Edge list" and cfg :: GlobalConfig
    and stamps :: "nat \<Rightarrow> string"
  defines "S \<equiv> sort_key (\<lambda>n. sequence_order (data n)) (filter (\<lambda>n. \<not> isStartNode (data n)) nodes)"
  defines "D \<equiv> generateFlowJson nodes edges cfg"
  defines "R \<equiv> restoreFlowFromJson stamps (generateFlowJson nodes edges cfg)"
  assumes H1: "distinct (map (\<lambda>n. sequence_order (data n)) (filter (\<lambda>n. \<not> isStartNode (data n)) nodes))"
    and H0: "\<forall>n \<in> set nodes. \<not> isStartNode (data n) \<longrightarrow> safe_integer (sequence_order (data n))"
    and i: "i < length S"
  shows "direct_predecessors nodes edges (S ! i)
           \<subseteq> direct_predecessors (r_nodes R) (r_edges R) (r_nodes R ! Suc i)"
    and "direct_predecessors nodes edges (S ! i) = {} \<Longrightarrow> sequence_order (data (S ! i)) \<noteq> 1 \<Longrightarrow>
         k < length S \<Longrightarrow> sequence_order (data (S ! k)) = sequence_order (data (S ! i)) - 1 \<Longrightarrow>
         sequence_order (data (S ! k))
           \<in> direct_predecessors (r_nodes R) (r_edges R) (r_nodes R ! Suc i)"
    and "direct_predecessors nodes edges (S ! i) = {} \<Longrightarrow> sequence_order (data (S ! i)) = 1 \<Longrightarrow>
         \<exists>e \<in> set (r_edges R). source e = ''start'' \<and> target e = node_id (r_nodes R ! Suc i)"
proof -
  let ?cs = "compile_step nodes edges"
  let ?m = "sequenceToIdMap stamps (steps D)"
  let ?idf = "\<lambda>j. gen_id (sequence_order (data (S ! j))) (stamps j)"
  let ?P = "direct_predecessors nodes edges (S ! i)"
  let ?P2 = "direct_predecessors (r_nodes R) (r_edges R) (r_nodes R ! Suc i)"
  have ss: "steps D = map ?cs S" by (simp add: D_def S_def compiled_steps)
  have len: "length (steps D) = length S" by (simp add: ss)
  have nth: "steps D ! j = ?cs (S ! j)" if "j < length S" for j using that by (simp add: ss)
  have ord: "step_sequence_order (steps D ! j) = sequence_order (data (S ! j))" if "j < length S" for j
    using that by (simp add: nth)
  have dss: "distinct (map step_sequence_order (steps D))"
    unfolding D_def using H1 by (rule compiled_orders_distinct)
  have setS: "set S = {n \<in> set nodes. \<not> isStartNode (data n)}" by (simp add: S_def)
  have safeS: "safe_integer (sequence_order (data (S ! j)))" if "j < length S" for j
    using that H0 setS nth_mem [of j S] by auto
  have dsafe: "\<forall>s \<in> set (steps D). safe_integer (step_sequence_order s)"
    using H0 by (auto simp add: ss setS)
  have Psafe: "\<forall>ord \<in> ?P. safe_integer ord"
    using H0 by (auto simp add: direct_predecessors_def)
  have pe: "round_to_double (sequence_order (data (S ! i)) - 1) = sequence_order (data (S ! i)) - 1"
    using i by (intro previous_order_exact safeS)
  have mj: "?m (sequence_order (data (S ! j))) = Some (?idf j)" if "j < length S" for j
    using lookup_distinct_orders [OF dss, of j stamps] that by (simp add: len ord)
  have node: "r_nodes R ! Suc j = restore_node stamps (steps D ! j) j" if "j < length S" for j
    using that by (simp add: R_def D_def [symmetric] restored_node_nth len)
  have nid: "node_id (r_nodes R ! Suc j) = ?idf j" if "j < length S" for j
    using that by (simp add: node ord)
  have dep: "step_depends_on (steps D ! i) =
          (if ?P = {} then None
           else Some (DepString (join_with '','' (map number_toString (sorted_list_of_set ?P)))))"
    using i by (simp add: nth compile_step_depends_on [OF H1])
  have fin: "finite ?P" by (rule finite_direct_predecessors)
  have mi: "?m (step_sequence_order (steps D ! i)) = Some (?idf i)" using i by (simp add: ord mj)
  have in_edges: "set (step_edges ?m D (steps D ! i)) \<subseteq> set (r_edges R)"
    unfolding R_def D_def [symmetric] using i by (intro step_edges_subset) (simp add: len)
  have pred: "sequence_order (data (S ! j)) \<in> ?P2"
    if j: "j < length S"
      and e: "\<lparr>edge_id = ''edge-'' @ ?idf j @ ''-'' @ ?idf i, source = ?idf j, target = ?idf i\<rparr>
            \<in> set (step_edges ?m D (steps D ! i))" for j
  proof -
    let ?e = "\<lparr>edge_id = ''edge-'' @ ?idf j @ ''-'' @ ?idf i, source = ?idf j, target = ?idf i\<rparr>"
    from e in_edges have "?e \<in> set (r_edges R)" by blast
    moreover have "r_nodes R ! Suc j \<in> set (r_nodes R)"
      using j by (intro nth_mem) (simp add: R_def D_def [symmetric] restored_nodes len)
    moreover have "\<not> isStartNode (data (r_nodes R ! Suc j))"
      using j by (simp add: node restore_node_sel)
    moreover have "sequence_order (data (r_nodes R ! Suc j)) = sequence_order (data (S ! j))"
      using j by (simp add: node restore_node_sel ord)
    moreover have "source ?e = node_id (r_nodes R ! Suc j)" using j by (simp add: nid)
    moreover have "source ?e \<noteq> ''start''" by (simp add: gen_id_not_start)
    moreover have "target ?e = node_id (r_nodes R ! Suc i)" using i by (simp add: nid)
    ultimately show ?thesis unfolding direct_predecessors_def by (simp del: Edge.simps) metis
  qed
  show "?P \<subseteq> ?P2"
  proof
    fix v
    assume v: "v \<in> ?P"
    then have ne: "?P \<noteq> {}" by auto
    with fin have "sorted_list_of_set ?P \<noteq> []" by simp
    moreover from ne dep have "step_depends_on (steps D ! i)
        = Some (DepString (join_with '','' (map number_toString (sorted_list_of_set ?P))))"
      by simp
    ultimately have de: "e \<in> set (step_edges ?m D (steps D ! i))
     \<longleftrightarrow> (\<exists>sid ord. ord \<in> set (sorted_list_of_set ?P) \<and> ?m ord = Some sid \<and> sid \<noteq> []
            \<and> e = \<lparr>edge_id = ''edge-'' @ sid @ ''-'' @ ?idf i, source = sid, target = ?idf i\<rparr>)"
      for e
      using mi gen_id_not_Nil by (intro dependency_edges) (simp_all add: Psafe fin)
    from v obtain y where "y \<in> set nodes" "\<not> isStartNode (data y)" "v = sequence_order (data y)"
      by (auto simp add: direct_predecessors_def)
    then have "y \<in> set S" by (simp add: setS)
    then obtain j where j: "j < length S" "S ! j = y" by (auto simp add: in_set_conv_nth)
    with \<open>v = sequence_order (data y)\<close> have vj: "v = sequence_order (data (S ! j))" by simp
    from v vj mj [OF j(1)] fin
    have "\<lparr>edge_id = ''edge-'' @ ?idf j @ ''-'' @ ?idf i, source = ?idf j, target = ?idf i\<rparr>
            \<in> set (step_edges ?m D (steps D ! i))"
      unfolding de using gen_id_not_Nil by auto
    with j(1) vj show "v \<in> ?P2" by (simp add: pred)
  qed
  show "sequence_order (data (S ! k)) \<in> ?P2"
    if e: "?P = {}" and o: "sequence_order (data (S ! i)) \<noteq> 1" and k: "k < length S"
      and p: "sequence_order (data (S ! k)) = sequence_order (data (S ! i)) - 1"
  proof -
    from e dep have nd: "\<not> truthy_dep (step_depends_on (steps D ! i))" by (simp add: truthy_dep_def)
    note fb = fallback_edges [where m = "?m" and step = "steps D ! i" and json = D
          and t = "?idf i", OF nd mi]
    from mj [OF k] p have "?m (sequence_order (data (S ! i)) - 1) = Some (?idf k)" by simp
    with fb o i have "step_edges ?m D (steps D ! i)
        = [\<lparr>edge_id = ''edge-'' @ ?idf k @ ''-'' @ ?idf i, source = ?idf k, target = ?idf i\<rparr>]"
      by (simp add: ord pe gen_id_not_Nil)
    then have "\<lparr>edge_id = ''edge-'' @ ?idf k @ ''-'' @ ?idf i, source = ?idf k, target = ?idf i\<rparr>
            \<in> set (step_edges ?m D (steps D ! i))"
      by simp
    with k show ?thesis by (rule pred)
  qed
  show "\<exists>e \<in> set (r_edges R). source e = ''start'' \<and> target e = node_id (r_nodes R ! Suc i)"
    if e: "?P = {}" and o: "sequence_order (data (S ! i)) = 1"
  proof -
    let ?e = "\<lparr>edge_id = ''edge-start-'' @ ?idf i, source = ''start'', target = ?idf i\<rparr>"
    from e dep have nd: "\<not> truthy_dep (step_depends_on (steps D ! i))" by (simp add: truthy_dep_def)
    note fb = fallback_edges [where m = "?m" and step = "steps D ! i" and json = D
          and t = "?idf i", OF nd mi]
    have "?e \<in> set (r_edges R)"
    proof (cases "iterate_flow D \<and> (\<exists>its. iterable_steps D = Some its \<and> 1 \<in> set its)")
      case True
      then obtain its where "iterate_flow D" "iterable_steps D = Some its" "1 \<in> set its" by blast
      moreover from mj [OF i] o have "?m 1 = Some (?idf i)" by simp
      ultimately have "?e \<in> set (iteration_edges ?m D)"
        using gen_id_not_Nil by (intro iteration_edge_present) auto
      then show ?thesis
        unfolding R_def D_def [symmetric] using iteration_edges_subset by blast
    next
      case False
      with fb o i have "?e \<in> set (step_edges ?m D (steps D ! i))" by (simp add: ord)
      with in_edges show ?thesis by blast
    qed
    moreover have "source ?e = ''start''" "target ?e = node_id (r_nodes R ! Suc i)"
      using i by (simp_all add: nid)
    ultimately show ?thesis by (intro bexI [of _ ?e]) simp_all
  qed
qed

lemma rebuilt_fallback_neutral:
  fixes nodes :: "Node list" and edges :: "Edge list" and cfg :: GlobalConfig
    and stamps :: "nat \<Rightarrow> string"
  defines "R \<equiv> restoreFlowFromJson stamps (generateFlowJson nodes edges cfg)"
  assumes H1: "distinct (map (\<lambda>n. sequence_order (data n)) (filter (\<lambda>n. \<not> isStartNode (data n)) nodes))"
    and H0: "\<forall>n \<in> set nodes. \<not> isStartNode (data n) \<longrightarrow> safe_integer (sequence_order (data n))"
  shows "fallback_neutral (r_nodes R) (r_edges R) iterating"
  unfolding fallback_neutral_def
proof (intro ballI impI)
  let ?S = "sort_key (\<lambda>n. sequence_order (data n)) (filter (\<lambda>n. \<not> isStartNode (data n)) nodes)"
  let ?D = "generateFlowJson nodes edges cfg"
  have len: "length (steps ?D) = length ?S" by (simp add: compiled_steps)
  have node: "r_nodes R ! Suc j = restore_node stamps (steps ?D ! j) j" if "j < length ?S" for j
    using that by (simp add: R_def restored_node_nth len)
  have so: "sequence_order (data (r_nodes R ! Suc j)) = sequence_order (data (?S ! j))"
    if "j < length ?S" for j
    using that by (simp add: node restore_node_sel compiled_steps)
  have idx: "\<exists>j < length ?S. x = r_nodes R ! Suc j"
    if "x \<in> set (r_nodes R)" and "\<not> isStartNode (data x)" for x
  proof -
    from that have "x \<in> set (filter (\<lambda>n. \<not> isStartNode (data n)) (r_nodes R))" by simp
    then obtain j where "j < length ?S" "x = restore_node stamps (steps ?D ! j) j"
      unfolding R_def restored_step_nodes by (auto simp add: len)
    then show ?thesis by (auto simp add: node)
  qed
  fix n
  assume n: "n \<in> set (r_nodes R)"
    and h: "\<not> isStartNode (data n) \<and> direct_predecessors (r_nodes R) (r_edges R) n = {}"
  then obtain j where j: "j < length ?S" "n = r_nodes R ! Suc j" using idx by blast
  note low = rebuilt_predecessors_lower [where nodes = nodes and edges = edges and cfg = cfg
      and stamps = stamps and i = j, OF H1 H0 j(1), folded R_def]
  from low(1) h j(2) have e: "direct_predecessors nodes edges (?S ! j) = {}" by simp
  show "if sequence_order (data n) = 1
        then iterating \<longrightarrow> (\<exists>e \<in> set (r_edges R). source e = ''start'' \<and> target e = node_id n)
        else \<forall>p \<in> set (r_nodes R). \<not> isStartNode (data p) \<longrightarrow>
               sequence_order (data p) \<noteq> sequence_order (data n) - 1"
  proof (cases "sequence_order (data n) = 1")
    case True
    with j have "sequence_order (data (?S ! j)) = 1" by (simp add: so)
    with low(3) e j(2) True show ?thesis by simp
  next
    case False
    with j have o: "sequence_order (data (?S ! j)) \<noteq> 1" by (simp add: so)
    have "sequence_order (data p) \<noteq> sequence_order (data n) - 1"
      if p: "p \<in> set (r_nodes R)" "\<not> isStartNode (data p)" for p
    proof
      assume q: "sequence_order (data p) = sequence_order (data n) - 1"
      from p obtain k where k: "k < length ?S" "p = r_nodes R ! Suc k" using idx by blast
      with q j have "sequence_order (data (?S ! k)) = sequence_order (data (?S ! j)) - 1"
        by (simp add: so)
      with low(2) e o k(1) have "sequence_order (data (?S ! k))
          \<in> direct_predecessors (r_nodes R) (r_edges R) (r_nodes R ! Suc j)"
        by simp
      with h j(2) show False by simp
    qed
    with False show ?thesis by simp
  qed
qed

section \<open>The second pass\<close>

lemma map_filter_indices:
  "map f (filter P xs) = map (\<lambda>j. f (xs ! j)) (filter (\<lambda>j. P (xs ! j)) [0..<length xs])"
proof -
  have "map f (filter P (map (\<lambda>j. xs ! j) [0..<length xs]))
          = map (\<lambda>j. f (xs ! j)) (filter (\<lambda>j. P (xs ! j)) [0..<length xs])"
    by (simp add: filter_map o_def)
  then show ?thesis by (simp add: map_nth)
qed

lemma recompile_compiled:
  fixes nodes :: "Node list" and edges :: "Edge list" and cfg :: GlobalConfig
    and stamps :: "nat \<Rightarrow> string"
  defines "D1 \<equiv> generateFlowJson nodes edges cfg"
  defines "R \<equiv> restoreFlowFromJson stamps (generateFlowJson nodes edges cfg)"
  assumes orders: "distinct (map (\<lambda>n. sequence_order (data n))
                                 (filter (\<lambda>n. \<not> isStartNode (data n)) nodes))"
    and labels: "\<forall>n \<in> set nodes. \<not> isStartNode (data n) \<longrightarrow> label (data n) \<noteq> []"
    and safe: "\<forall>n \<in> set nodes. \<not> isStartNode (data n) \<longrightarrow> safe_numbers (data n)"
    and grains: "\<forall>n \<in> set nodes. known_grain (data n)"
    and name: "cfg_flowName cfg \<noteq> []"
    and neutral: "fallback_neutral nodes edges (cfg_iterateFlow cfg)"
  shows "recompile stamps D1 = D1"
proof -
  from safe
  have H0: "\<forall>n \<in> set nodes. \<not> isStartNode (data n) \<longrightarrow> safe_integer (sequence_order (data n))"
    by (simp add: safe_numbers_def)
  from neutral
  have first: "\<forall>n \<in> set nodes. \<not> isStartNode (data n) \<and> direct_predecessors nodes edges n = {}
                  \<and> sequence_order (data n) = 1 \<and> cfg_iterateFlow cfg \<longrightarrow>
                (\<exists>e \<in> set edges. source e = ''start'' \<and> target e = node_id n)"
    unfolding fallback_neutral_def by (auto split: if_splits)
  from neutral
  have gap: "\<forall>n \<in> set nodes. \<not> isStartNode (data n) \<and> direct_predecessors nodes edges n = {}
                \<and> sequence_order (data n) \<noteq> 1 \<longrightarrow>
              (\<forall>p \<in> set nodes. \<not> isStartNode (data p) \<longrightarrow>
                 sequence_order (data p) \<noteq> sequence_order (data n) - 1)"
    unfolding fallback_neutral_def by (auto split: if_splits)
  let ?S = "sort_key (\<lambda>n. sequence_order (data n)) (filter (\<lambda>n. \<not> isStartNode (data n)) nodes)"
  let ?cs = "compile_step nodes edges"
  let ?cs2 = "compile_step (r_nodes R) (r_edges R)"
  let ?N = "\<lambda>j. restore_node stamps (steps D1 ! j) j"
  let ?cfg2 = "\<lparr>cfg_iterateFlow = r_iterateFlow R, cfg_getIterateList = r_getIterateList R,
            cfg_flowName = r_flowName R\<rparr>"
  let ?D2 = "generateFlowJson (r_nodes R) (r_edges R) ?cfg2"
  have ss: "steps D1 = map ?cs ?S" by (simp add: D1_def compiled_steps)
  have len: "length (steps D1) = length ?S" by (simp add: ss)
  have nth: "steps D1 ! j = ?cs (?S ! j)" if "j < length ?S" for j using that by (simp add: ss)
  have setS: "set ?S = {n \<in> set nodes. \<not> isStartNode (data n)}" by simp
  have Sj: "?S ! j \<in> set nodes" "\<not> isStartNode (data (?S ! j))" if "j < length ?S" for j
    using that setS nth_mem [of j ?S] by auto
  have node: "r_nodes R ! Suc j = ?N j" if "j < length ?S" for j
    using that by (simp add: R_def D1_def [symmetric] restored_node_nth len)
  have sorted2: "sort_key (\<lambda>n. sequence_order (data n))
           (filter (\<lambda>n. \<not> isStartNode (data n)) (r_nodes R)) = map ?N [0..<length ?S]"
    unfolding R_def D1_def [symmetric]
    using compiled_orders_sorted [of nodes edges cfg]
    by (simp add: restored_sorted_steps D1_def [symmetric] len)
  have orders2: "distinct (map (\<lambda>n. sequence_order (data n))
                    (filter (\<lambda>n. \<not> isStartNode (data n)) (r_nodes R)))"
  proof -
    have "map (\<lambda>n. sequence_order (data n)) (filter (\<lambda>n. \<not> isStartNode (data n)) (r_nodes R))
        = map step_sequence_order (steps D1)"
      unfolding R_def D1_def [symmetric] restored_step_nodes
      by (rule nth_equalityI) (simp_all add: restore_node_sel)
    with compiled_orders_distinct [OF orders, of edges cfg] show ?thesis
      by (simp add: D1_def)
  qed
  have it2: "r_iterateFlow R = cfg_iterateFlow cfg"
    by (simp add: R_def restoreFlowFromJson_def generateFlowJson_def Let_def)
  have name2: "r_flowName R = cfg_flowName cfg"
    using name by (simp add: R_def restoreFlowFromJson_def generateFlowJson_def Let_def)
  have list2: "cfg_iterateFlow cfg \<Longrightarrow> r_getIterateList R = cfg_getIterateList cfg"
    by (simp add: R_def restoreFlowFromJson_def generateFlowJson_def Let_def)
  have step_eq: "?cs2 (?N j) = steps D1 ! j" if j: "j < length ?S" for j
  proof (rule FlowStep.equality)
    note Sj [OF j]
    then have lab: "label (data (?S ! j)) \<noteq> []"
      and gr: "known_grain (data (?S ! j))"
      and sn: "safe_numbers (data (?S ! j))"
      using labels grains safe by auto
    note pf = recompile_plain_fields [where n = "?S ! j" and nodes = nodes and edges = edges
        and nodes' = "r_nodes R" and edges' = "r_edges R" and stamps = stamps and i = j, OF lab]
    note tf = recompile_time_fields [where n = "?S ! j" and nodes = nodes and edges = edges
        and nodes' = "r_nodes R" and edges' = "r_edges R" and stamps = stamps and i = j, OF gr sn]
    show "step_sequence_order (?cs2 (?N j)) = step_sequence_order (steps D1 ! j)"
      using pf(1) j by (simp add: nth)
    show "step_sequence_name (?cs2 (?N j)) = step_sequence_name (steps D1 ! j)"
      using pf(2) j by (simp add: nth)
    show "step_type (?cs2 (?N j)) = step_type (steps D1 ! j)"
      using pf(3) j by (simp add: nth)
    show "step_value (?cs2 (?N j)) = step_value (steps D1 ! j)"
      using pf(4) j by (simp add: nth)
    show "step_max_retry (?cs2 (?N j)) = step_max_retry (steps D1 ! j)"
      using pf(5) j by (simp add: nth)
    show "step_append_iteration_column (?cs2 (?N j)) = step_append_iteration_column (steps D1 ! j)"
      using pf(6) j by (simp add: nth)
    show "step_append_time_column (?cs2 (?N j)) = step_append_time_column (steps D1 ! j)"
      using pf(7) j by (simp add: nth)
    show "step_time_mode (?cs2 (?N j)) = step_time_mode (steps D1 ! j)"
      using pf(8) j by (simp add: nth)
    show "step_reference_date (?cs2 (?N j)) = step_reference_date (steps D1 ! j)"
      using pf(9) j by (simp add: nth)
    show "step_llm_model (?cs2 (?N j)) = step_llm_model (steps D1 ! j)"
      using pf(10) j by (simp add: nth)
    show "step_time_range (?cs2 (?N j)) = step_time_range (steps D1 ! j)"
      using tf j by (simp add: nth)
    show "step_time_grain (?cs2 (?N j)) = step_time_grain (steps D1 ! j)"
      using tf j by (simp add: nth)
    show "step_depends_on (?cs2 (?N j)) = step_depends_on (steps D1 ! j)"
    proof -
      have "direct_predecessors (r_nodes R) (r_edges R) (r_nodes R ! Suc j)
           = direct_predecessors nodes edges (?S ! j)"
        unfolding R_def using orders H0 gap j by (rule rebuilt_direct_predecessors)
      then have "direct_predecessors (r_nodes R) (r_edges R) (?N j)
           = direct_predecessors nodes edges (?S ! j)"
        using j by (simp add: node)
      then show ?thesis
        using j by (simp add: nth compile_step_depends_on [OF orders]
              compile_step_depends_on [OF orders2])
    qed
    show "FlowStep.more (?cs2 (?N j)) = FlowStep.more (steps D1 ! j)" by simp
  qed
  have steps_eq: "steps ?D2 = steps D1"
  proof -
    have "steps ?D2 = map ?cs2 (map ?N [0..<length ?S])"
      by (simp only: compiled_steps sorted2)
    also have "\<dots> = steps D1"
      by (rule nth_equalityI) (simp_all add: len step_eq)
    finally show ?thesis .
  qed
  have iterable_eq: "iterable_steps ?D2 = iterable_steps D1"
  proof (cases "cfg_iterateFlow cfg")
    case False
    then show ?thesis by (simp add: D1_def generateFlowJson_def Let_def it2)
  next
    case True
    let ?T0 = "set (map target (filter (\<lambda>e. source e = ''start'') edges))"
    let ?T2 = "set (map target (filter (\<lambda>e. source e = ''start'') (r_edges R)))"
    from first True have H5: "\<forall>n \<in> set nodes. \<not> isStartNode (data n)
                \<and> direct_predecessors nodes edges n = {} \<and> sequence_order (data n) = 1 \<longrightarrow>
              (\<exists>e \<in> set edges. source e = ''start'' \<and> target e = node_id n)"
      by blast
    have tgt: "node_id (?N j) \<in> ?T2 \<longleftrightarrow> node_id (?S ! j) \<in> ?T0" if j: "j < length ?S" for j
    proof -
      have "node_id (r_nodes R ! Suc j) \<in> ?T2 \<longleftrightarrow> node_id (?S ! j) \<in> ?T0"
        unfolding R_def using orders H0 H5 True j by (rule rebuilt_start_targets)
      with j show ?thesis by (simp only: node)
    qed
    have so: "sequence_order (data (?N j)) = sequence_order (data (?S ! j))" if "j < length ?S" for j
      using that by (simp add: restore_node_sel nth)
    have "iterable_steps ?D2
        = Some (map (\<lambda>n. sequence_order (data n))
                  (filter (\<lambda>n. node_id n \<in> ?T2) (map ?N [0..<length ?S])))"
      using True by (simp only: compiled_iterable_steps sorted2 it2 GlobalConfig.simps)
    also have "map (\<lambda>n. sequence_order (data n))
                  (filter (\<lambda>n. node_id n \<in> ?T2) (map ?N [0..<length ?S]))
        = map (\<lambda>j. sequence_order (data (?N j)))
              (filter (\<lambda>j. node_id (?N j) \<in> ?T2) [0..<length ?S])"
      by (simp add: filter_map o_def)
    also have "\<dots> = map (\<lambda>j. sequence_order (data (?S ! j)))
              (filter (\<lambda>j. node_id (?S ! j) \<in> ?T0) [0..<length ?S])"
    proof -
      have "filter (\<lambda>j. node_id (?N j) \<in> ?T2) [0..<length ?S]
          = filter (\<lambda>j. node_id (?S ! j) \<in> ?T0) [0..<length ?S]"
        by (rule filter_cong) (simp_all only: set_upt atLeastLessThan_iff tgt)
      moreover have "map (\<lambda>j. sequence_order (data (?N j)))
              (filter (\<lambda>j. node_id (?S ! j) \<in> ?T0) [0..<length ?S])
          = map (\<lambda>j. sequence_order (data (?S ! j)))
              (filter (\<lambda>j. node_id (?S ! j) \<in> ?T0) [0..<length ?S])"
        by (rule map_cong) (simp_all add: so)
      ultimately show ?thesis by (simp only:)
    qed
    also have "\<dots> = map (\<lambda>n. sequence_order (data n)) (filter (\<lambda>n. node_id n \<in> ?T0) ?S)"
      by (rule map_filter_indices [symmetric])
    finally show ?thesis
      using True by (simp only: D1_def compiled_iterable_steps)
  qed
  have "?D2 = D1"
  proof (rule FlowJson.equality)
    show "flow_name ?D2 = flow_name D1"
      by (simp add: D1_def generateFlowJson_def Let_def name2)
    show "iterate_flow ?D2 = iterate_flow D1"
      by (simp add: D1_def generateFlowJson_def Let_def it2)
    show "iterable_steps ?D2 = iterable_steps D1" by (rule iterable_eq)
    show "get_iterate_list ?D2 = get_iterate_list D1"
      using list2 by (simp add: D1_def generateFlowJson_def Let_def it2)
    show "steps ?D2 = steps D1" by (rule steps_eq)
    show "FlowJson.more ?D2 = FlowJson.more D1" by simp
  qed
  then show ?thesis by (simp add: recompile_def Let_def R_def D1_def)
qed

lemma rebuilt_orders_distinct:
  assumes "distinct (map (\<lambda>n. sequence_order (data n)) (filter (\<lambda>n. \<not> isStartNode (data n)) nodes))"
  shows "distinct (map (\<lambda>n. sequence_order (data n))
            (filter (\<lambda>n. \<not> isStartNode (data n))
               (r_nodes (restoreFlowFromJson stamps (generateFlowJson nodes edges cfg)))))"
proof -
  have "map (\<lambda>n. sequence_order (data n))
          (filter (\<lambda>n. \<not> isStartNode (data n))
             (r_nodes (restoreFlowFromJson stamps (generateFlowJson nodes edges cfg))))
        = map step_sequence_order (steps (generateFlowJson nodes edges cfg))"
    unfolding restored_step_nodes by (rule nth_equalityI) (simp_all add: restore_node_sel)
  with compiled_orders_distinct [OF assms, of edges cfg] show ?thesis by simp
qed

lemma rebuilt_nodes_cases:
  assumes "n \<in> set (r_nodes (restoreFlowFromJson stamps json))"
  shows "n = start_node \<or> (\<exists>i < length (steps json). n = restore_node stamps (steps json ! i) i)"
  using assms by (auto simp add: restored_nodes)

lemma rebuilt_safe_numbers:
  assumes "\<forall>n \<in> set nodes. \<not> isStartNode (data n) \<longrightarrow> safe_numbers (data n)"
    and "x \<in> set (r_nodes (restoreFlowFromJson stamps (generateFlowJson nodes edges cfg)))"
    and "\<not> isStartNode (data x)"
  shows "safe_numbers (data x)"
proof -
  let ?S = "sort_key (\<lambda>n. sequence_order (data n)) (filter (\<lambda>n. \<not> isStartNode (data n)) nodes)"
  let ?D = "generateFlowJson nodes edges cfg"
  from assms(2,3) obtain i where i: "i < length (steps ?D)"
      "x = restore_node stamps (steps ?D ! i) i"
    by (auto dest!: rebuilt_nodes_cases simp add: start_node_def)
  from i(1) have l: "i < length ?S" by (simp add: compiled_steps)
  then have "?S ! i \<in> set ?S" by (rule nth_mem)
  then have "?S ! i \<in> set nodes" "\<not> isStartNode (data (?S ! i))" by simp_all
  with assms(1) have "safe_numbers (data (?S ! i))" by blast
  then have "safe_numbers (data (restore_node stamps (compile_step nodes edges (?S ! i)) i))"
    by (rule restored_safe_numbers)
  with i(2) l show ?thesis by (simp add: compiled_steps)
qed

text \<open>
  Claim C1, as amended. Let the non-start nodes of a graph have pairwise distinct sequence
  orders, let these orders be safe integers, let the time amounts that are set be safe
  integers or \<open>NaN\<close>, and let \<open>D1\<close> be the compiled document. One pass (rebuilding a graph from a
  document and compiling it) gives a document \<open>D2\<close> that every further pass leaves as
  it is, whatever identifiers the rebuilt nodes are given. The first pass itself gives
  \<open>D1\<close> again, field for field, when moreover the labels of the non-start nodes and the
  flow name are non-empty, the time grains in use are \<open>month\<close> or \<open>day\<close>, and the graph
  holds the edges that the import infers: every non-start node without a direct non-start
  predecessor has the order 1 and, when \<open>iterateFlow\<close> is on, an edge from the start
  node, or its order is not 1 and no non-start node has the order before it.
\<close>

theorem second_pass_fixed_point:
  fixes nodes :: "Node list" and edges :: "Edge list" and cfg :: GlobalConfig
    and stamps stamps' :: "nat \<Rightarrow> string"
  defines "D1 \<equiv> generateFlowJson nodes edges cfg"
  assumes orders: "distinct (map (\<lambda>n. sequence_order (data n))
                                 (filter (\<lambda>n. \<not> isStartNode (data n)) nodes))"
    and safe: "\<forall>n \<in> set nodes. \<not> isStartNode (data n) \<longrightarrow> safe_numbers (data n)"
  shows "recompile stamps' (recompile stamps D1) = recompile stamps D1
    \<and> ((\<forall>n \<in> set nodes. \<not> isStartNode (data n) \<longrightarrow> label (data n) \<noteq> [])
         \<and> cfg_flowName cfg \<noteq> []
         \<and> (\<forall>n \<in> set nodes. known_grain (data n))
         \<and> fallback_neutral nodes edges (cfg_iterateFlow cfg) \<longrightarrow>
       recompile stamps D1 = D1)"
proof
  let ?R = "restoreFlowFromJson stamps (generateFlowJson nodes edges cfg)"
  let ?cfg2 = "\<lparr>cfg_iterateFlow = r_iterateFlow ?R, cfg_getIterateList = r_getIterateList ?R,
            cfg_flowName = r_flowName ?R\<rparr>"
  have D2: "recompile stamps D1 = generateFlowJson (r_nodes ?R) (r_edges ?R) ?cfg2"
    by (simp add: recompile_def Let_def D1_def)
  have orders2: "distinct (map (\<lambda>n. sequence_order (data n))
                    (filter (\<lambda>n. \<not> isStartNode (data n)) (r_nodes ?R)))"
    using orders by (rule rebuilt_orders_distinct)
  have labels2: "\<forall>n \<in> set (r_nodes ?R). \<not> isStartNode (data n) \<longrightarrow> label (data n) \<noteq> []"
    using restored_label by (auto dest!: rebuilt_nodes_cases simp add: start_node_def)
  have grains2: "\<forall>n \<in> set (r_nodes ?R). known_grain (data n)"
  proof
    fix n assume "n \<in> set (r_nodes ?R)"
    then have "n = start_node \<or> (\<exists>i. n = restore_node stamps (steps (generateFlowJson nodes edges cfg) ! i) i)"
      by (blast dest: rebuilt_nodes_cases)
    then show "known_grain (data n)"
    proof
      assume "n = start_node"
      then show ?thesis by (simp add: known_grain_def start_node_def)
    next
      assume "\<exists>i. n = restore_node stamps (steps (generateFlowJson nodes edges cfg) ! i) i"
      then show ?thesis using restored_known_grain by auto
    qed
  qed
  have name2: "cfg_flowName ?cfg2 \<noteq> []" by (simp add: restored_flow_name)
  from safe
  have H0: "\<forall>n \<in> set nodes. \<not> isStartNode (data n) \<longrightarrow> safe_integer (sequence_order (data n))"
    by (simp add: safe_numbers_def)
  have neutral2: "fallback_neutral (r_nodes ?R) (r_edges ?R) (cfg_iterateFlow ?cfg2)"
    using orders H0 by (rule rebuilt_fallback_neutral)
  have safe2: "\<forall>n \<in> set (r_nodes ?R). \<not> isStartNode (data n) \<longrightarrow> safe_numbers (data n)"
    using safe by (blast intro: rebuilt_safe_numbers)
  from orders2 labels2 safe2 grains2 name2 neutral2
  have "recompile stamps' (generateFlowJson (r_nodes ?R) (r_edges ?R) ?cfg2)
          = generateFlowJson (r_nodes ?R) (r_edges ?R) ?cfg2"
    by (rule recompile_compiled)
  then show "recompile stamps' (recompile stamps D1) = recompile stamps D1"
    by (simp only: D2)
next
  show "(\<forall>n \<in> set nodes. \<not> isStartNode (data n) \<longrightarrow> label (data n) \<noteq> [])
         \<and> cfg_flowName cfg \<noteq> []
         \<and> (\<forall>n \<in> set nodes. known_grain (data n))
         \<and> fallback_neutral nodes edges (cfg_iterateFlow cfg) \<longrightarrow>
       recompile stamps D1 = D1"
    unfolding D1_def using orders safe by (intro impI) (rule recompile_compiled, simp_all)
qed

text \<open>
  The claim as written, that the first pass gives \<open>D1\<close> again for every graph, fails
  where the graph lacks an edge that the import infers. Two steps of the orders 1 and 2
  without any edge compile to records without \<open>depends_on\<close>; the import then adds the
  edge from step 1 to step 2, and the second document gives step 2 the \<open>depends_on\<close>
  \<open>1\<close>.
\<close>

theorem second_pass_counterexample:
  "recompile index_stamp
     (generateFlowJson gap_graph []
        \<lparr>cfg_iterateFlow = False, cfg_getIterateList = [], cfg_flowName = ''f''\<rparr>)
   \<noteq> generateFlowJson gap_graph []
        \<lparr>cfg_iterateFlow = False, cfg_getIterateList = [], cfg_flowName = ''f''\<rparr>"
proof -
  let ?cfg = "\<lparr>cfg_iterateFlow = False, cfg_getIterateList = [], cfg_flowName = ''f''\<rparr>"
  have "map step_depends_on (steps (recompile index_stamp (generateFlowJson gap_graph [] ?cfg)))
          = [None, Some (DepString ''1'')]"
    by code_simp
  moreover have "map step_depends_on (steps (generateFlowJson gap_graph [] ?cfg)) = [None, None]"
    by code_simp
  ultimately show ?thesis by auto
qed

text \<open>
  Beyond the safe integers not even the second pass is stable. A step of the order
  \<open>10 ^ 21\<close> is its own predecessor for the import, since the order before it is again
  \<open>10 ^ 21\<close>; the second document names it in exponent form, of which the next import
  reads the first digit only, and the third document names the step of order 1.
\<close>

lemma second_pass_large_orders:
  "map step_depends_on (steps (recompile index_stamp
      (generateFlowJson wide_graph []
         \<lparr>cfg_iterateFlow = False, cfg_getIterateList = [], cfg_flowName = ''f''\<rparr>)))
     = [None, Some (DepString ''1e+21'')]
   \<and> map step_depends_on (steps (recompile index_stamp (recompile index_stamp
      (generateFlowJson wide_graph []
         \<lparr>cfg_iterateFlow = False, cfg_getIterateList = [], cfg_flowName = ''f''\<rparr>))))
     = [None, Some (DepString ''1'')]"
  by code_simp

theorem second_pass_witness:
  "recompile index_stamp
     (recompile index_stamp
        (generateFlowJson gap_graph []
           \<lparr>cfg_iterateFlow = False, cfg_getIterateList = [], cfg_flowName = ''f''\<rparr>))
   = recompile index_stamp
       (generateFlowJson gap_graph []
          \<lparr>cfg_iterateFlow = False, cfg_getIterateList = [], cfg_flowName = ''f''\<rparr>)
   \<and> recompile index_stamp
       (generateFlowJson chain_graph chain_edges
          \<lparr>cfg_iterateFlow = True, cfg_getIterateList = ''SELECT id FROM t'', cfg_flowName = ''f''\<rparr>)
     = generateFlowJson chain_graph chain_edges
          \<lparr>cfg_iterateFlow = True, cfg_getIterateList = ''SELECT id FROM t'', cfg_flowName = ''f''\<rparr>"
proof -
  let ?cfg = "\<lparr>cfg_iterateFlow = True, cfg_getIterateList = ''SELECT id FROM t'',
      cfg_flowName = ''f''\<rparr>"
  have gap_orders: "distinct (map (\<lambda>n. sequence_order (data n))
                                 (filter (\<lambda>n. \<not> isStartNode (data n)) gap_graph))"
    by code_simp
  have gap_safe: "\<forall>n \<in> set gap_graph. \<not> isStartNode (data n) \<longrightarrow> safe_numbers (data n)"
    by (simp add: gap_graph_def start_node_def mk_step_def mk_data_def safe_numbers_def
          safe_integer_def)
  have safe: "\<forall>n \<in> set chain_graph. \<not> isStartNode (data n) \<longrightarrow> safe_numbers (data n)"
    by (simp add: chain_graph_def start_node_def mk_step_def mk_data_def safe_numbers_def
          safe_integer_def)
  have orders: "distinct (map (\<lambda>n. sequence_order (data n))
                                 (filter (\<lambda>n. \<not> isStartNode (data n)) chain_graph))"
    by code_simp
  have labels: "\<forall>n \<in> set chain_graph. \<not> isStartNode (data n) \<longrightarrow> label (data n) \<noteq> []"
    by code_simp
  have grains: "\<forall>n \<in> set chain_graph. known_grain (data n)"
    by (simp add: chain_graph_def start_node_def mk_step_def mk_data_def known_grain_def
          truthy_str_def)
  have name: "cfg_flowName ?cfg \<noteq> []" by simp
  have neutral: "fallback_neutral chain_graph chain_edges (cfg_iterateFlow ?cfg)"
    unfolding fallback_neutral_def by code_simp
  from second_pass_fixed_point [OF gap_orders gap_safe]
  have 1: "recompile index_stamp
     (recompile index_stamp
        (generateFlowJson gap_graph []
           \<lparr>cfg_iterateFlow = False, cfg_getIterateList = [], cfg_flowName = ''f''\<rparr>))
   = recompile index_stamp
       (generateFlowJson gap_graph []
          \<lparr>cfg_iterateFlow = False, cfg_getIterateList = [], cfg_flowName = ''f''\<rparr>)"
    by blast
  from second_pass_fixed_point [OF orders safe, of index_stamp index_stamp chain_edges ?cfg]
    labels grains name neutral
  have 2: "recompile index_stamp (generateFlowJson chain_graph chain_edges ?cfg)
     = generateFlowJson chain_graph chain_edges ?cfg"
    by blast
  from 1 2 show ?thesis by simp
qed

end
